theory Spec2Isabelle
  imports Main "HOL-Library.Product_Lexorder"
begin

section \<open>Python strings\<close>

text \<open>
  A Python \<open>str\<close> is modelled as a \<open>string\<close> whose characters are the code points
  below U+0100. \<open>isspace\<close> is \<open>str.isspace\<close> on that range, which is also the class
  \<open>\\s\<close> of the \<open>re\<close> module for \<open>str\<close> patterns; \<open>lower\<close> is \<open>str.lower\<close>,
  \<open>strip\<close> is \<open>str.strip()\<close> and \<open>join sep\<close> is \<open>sep.join\<close>.
\<close>

text \<open>
  The whitespace characters below U+0100: tab to carriage return, the four separators
  U+001C to U+001F, the space, NEL (U+0085) and the no-break space (U+00A0).
  \<open>str.lower\<close> on the same range moves \<open>A-Z\<close> and the Latin-1 capitals (U+00C0 to
  U+00DE, the multiplication sign apart) up by 32.
\<close>

definition isspace :: "char \<Rightarrow> bool" where
  "isspace c = ((of_char c :: nat) \<in> {9, 10, 11, 12, 13, 28, 29, 30, 31, 32, 133, 160})"

definition lower_char :: "char \<Rightarrow> char" where
  "lower_char c =
     (let n = (of_char c :: nat)
      in if (65 \<le> n \<and> n \<le> 90) \<or> (192 \<le> n \<and> n \<le> 222 \<and> n \<noteq> 215)
         then char_of (n + 32) else c)"

definition lower :: "string \<Rightarrow> string" where
  "lower s = map lower_char s"

definition strip :: "string \<Rightarrow> string" where
  "strip s = rev (dropWhile isspace (rev (dropWhile isspace s)))"

fun join :: "string \<Rightarrow> string list \<Rightarrow> string" where
  "join sep [] = []"
| "join sep [x] = x"
| "join sep (x # y # ys) = x @ sep @ join sep (y # ys)"

subsection \<open>\<open>split_sentences\<close> (app.py, lines 64-65)\<close>

text \<open>
  \<^verbatim>\<open>def split_sentences(text): return re.split(r'(?<=[.!?])\s+', text.strip())\<close>

  The pattern has no group and never matches the empty string, so \<open>re.split\<close> returns
  the pieces of the string between its successive matches, scanning from the left. A
  match starts at a whitespace character whose preceding character is \<open>.\<close>, \<open>!\<close> or \<open>?\<close>
  (the lookbehind, which reads the string itself) and takes the whole whitespace run
  (\<open>\s+\<close> is greedy). \<open>re_split cur prev s\<close> is that scan: \<open>cur\<close> is the piece collected
  since the last match, \<open>prev\<close> the character before the current position and \<open>s\<close> the
  rest of the string.
\<close>

definition is_terminal :: "char \<Rightarrow> bool" where
  "is_terminal c = (c = CHR ''.'' \<or> c = CHR ''!'' \<or> c = CHR ''?'')"

fun lookbehind :: "char option \<Rightarrow> bool" where
  "lookbehind None = False"
| "lookbehind (Some p) = is_terminal p"

function re_split :: "string \<Rightarrow> char option \<Rightarrow> string \<Rightarrow> string list" where
  "re_split cur prev [] = [cur]"
| "re_split cur prev (c # cs) =
     (if lookbehind prev \<and> isspace c
      then cur # re_split [] (Some (last (c # takeWhile isspace cs))) (dropWhile isspace cs)
      else re_split (cur @ [c]) (Some c) cs)"
  by pat_completeness auto
termination
  by (relation "measure (\<lambda>(cur, prev, s). length s)")
     (auto simp: length_dropWhile_le less_Suc_eq_le)

definition split_sentences :: "string \<Rightarrow> string list" where
  "split_sentences text = re_split [] None (strip text)"


section \<open>Properties of the sentence splitter\<close>

text \<open>
  \<open>has_break s\<close>: somewhere in \<open>s\<close> a terminal is followed by whitespace.
  \<open>weave segs gaps\<close> interleaves segments with the gaps between them.
\<close>

fun has_break :: "string \<Rightarrow> bool" where
  "has_break (p # c # cs) = ((is_terminal p \<and> isspace c) \<or> has_break (c # cs))"
| "has_break _ = False"

fun weave :: "string list \<Rightarrow> string list \<Rightarrow> string" where
  "weave (s # ss) (g # gs) = s @ g @ weave ss gs"
| "weave ss [] = concat ss"
| "weave [] gs = []"

definition whitespace_run :: "string \<Rightarrow> bool" where
  "whitespace_run g = (g \<noteq> [] \<and> list_all isspace g)"

definition trimmed :: "string \<Rightarrow> bool" where
  "trimmed s = (s = [] \<or> (\<not> isspace (hd s) \<and> \<not> isspace (last s)))"

lemma re_split_match:
  "lookbehind prev \<and> isspace c \<Longrightarrow>
   re_split cur prev (c # cs) =
     cur # re_split [] (Some (last (c # takeWhile isspace cs))) (dropWhile isspace cs)"
  by (simp del: last.simps)

lemma re_split_step:
  "\<not> (lookbehind prev \<and> isspace c) \<Longrightarrow>
   re_split cur prev (c # cs) = re_split (cur @ [c]) (Some c) cs"
  by (auto simp del: last.simps)

declare re_split.simps(2) [simp del]

lemma re_split_not_Nil: "re_split cur prev cs \<noteq> []"
proof (induction cur prev cs rule: re_split.induct)
  case (1 cur prev)
  show ?case by simp
next
  case (2 cur prev c cs)
  show ?case
  proof (cases "lookbehind prev \<and> isspace c")
    case True
    show ?thesis unfolding re_split_match[OF True] by simp
  next
    case False
    show ?thesis unfolding re_split_step[OF False] using "2.IH"(2)[OF False] .
  qed
qed

lemma re_split_weave:
  "\<exists>gaps. length (re_split cur prev cs) = Suc (length gaps)
        \<and> list_all whitespace_run gaps
        \<and> weave (re_split cur prev cs) gaps = cur @ cs"
proof (induction cur prev cs rule: re_split.induct)
  case (1 cur prev)
  show ?case by (rule exI[of _ "[]"]) simp
next
  case (2 cur prev c cs)
  show ?case
  proof (cases "lookbehind prev \<and> isspace c")
    case True
    let ?rest = "re_split [] (Some (last (c # takeWhile isspace cs))) (dropWhile isspace cs)"
    from "2.IH"(1)[OF True] obtain gaps where
      g: "length ?rest = Suc (length gaps)" "list_all whitespace_run gaps"
         "weave ?rest gaps = dropWhile isspace cs"
      by auto
    let ?g = "c # takeWhile isspace cs"
    have w: "whitespace_run ?g"
      using True by (auto simp: whitespace_run_def list_all_iff dest: set_takeWhileD)
    have "weave (cur # ?rest) (?g # gaps) = cur @ c # cs"
      using g(3) by (simp del: last.simps)
    then show ?thesis
      unfolding re_split_match[OF True]
      using g(1,2) w by (intro exI[of _ "?g # gaps"]) (simp del: last.simps)
  next
    case False
    show ?thesis unfolding re_split_step[OF False] using "2.IH"(2)[OF False] by simp
  qed
qed

definition linked :: "string \<Rightarrow> char option \<Rightarrow> bool" where
  "linked cur prev = (if cur = [] then \<not> lookbehind prev else prev = Some (last cur))"

lemma isspace_not_terminal: "isspace c \<Longrightarrow> \<not> is_terminal c"
  by (auto simp: isspace_def is_terminal_def)

lemma last_run_isspace: "isspace c \<Longrightarrow> isspace (last (c # takeWhile isspace cs))"
proof -
  assume "isspace c"
  then have "\<forall>x\<in>set (c # takeWhile isspace cs). isspace x"
    by (auto dest: set_takeWhileD)
  then show ?thesis using last_in_set[of "c # takeWhile isspace cs"] by blast
qed

lemma linked_after_match: "isspace c \<Longrightarrow> linked [] (Some (last (c # takeWhile isspace cs)))"
  using last_run_isspace[of c cs] isspace_not_terminal by (simp add: linked_def del: last.simps)

lemma linked_snoc: "linked (cur @ [c]) (Some c)"
  by (simp add: linked_def)

lemma linked_match: "linked cur prev \<Longrightarrow> lookbehind prev \<Longrightarrow> cur \<noteq> [] \<and> is_terminal (last cur)"
  by (cases "cur = []") (auto simp: linked_def)

lemma butlast_re_split_terminal:
  "linked cur prev \<Longrightarrow>
   \<forall>s\<in>set (butlast (re_split cur prev cs)). s \<noteq> [] \<and> is_terminal (last s)"
proof (induction cur prev cs rule: re_split.induct)
  case (1 cur prev)
  show ?case by simp
next
  case (2 cur prev c cs)
  show ?case
  proof (cases "lookbehind prev \<and> isspace c")
    case True
    then have sp: "isspace c" by simp
    let ?rest = "re_split [] (Some (last (c # takeWhile isspace cs))) (dropWhile isspace cs)"
    have r: "\<forall>s\<in>set (butlast ?rest). s \<noteq> [] \<and> is_terminal (last s)"
      by (rule "2.IH"(1)[OF True linked_after_match[OF sp]])
    have ne: "?rest \<noteq> []" by (rule re_split_not_Nil)
    have c: "cur \<noteq> [] \<and> is_terminal (last cur)"
      using linked_match[OF "2.prems"] True by blast
    have "butlast (cur # ?rest) = cur # butlast ?rest"
      using ne by (simp only: butlast.simps if_False)
    then show ?thesis
      unfolding re_split_match[OF True] using r c by (simp only: set_simps ball_simps) blast
  next
    case False
    show ?thesis unfolding re_split_step[OF False]
      using "2.IH"(2)[OF False linked_snoc] .
  qed
qed


lemma has_break_snoc:
  "has_break (xs @ [c]) = (has_break xs \<or> (xs \<noteq> [] \<and> is_terminal (last xs) \<and> isspace c))"
  by (induction xs rule: has_break.induct) auto

lemma re_split_no_inner_break:
  "linked cur prev \<Longrightarrow> \<not> has_break cur \<Longrightarrow>
   \<forall>s\<in>set (re_split cur prev cs). \<not> has_break s"
proof (induction cur prev cs rule: re_split.induct)
  case (1 cur prev)
  then show ?case by simp
next
  case (2 cur prev c cs)
  show ?case
  proof (cases "lookbehind prev \<and> isspace c")
    case True
    then have sp: "isspace c" by simp
    have nb: "\<not> has_break []" by simp
    have "\<forall>s\<in>set (re_split [] (Some (last (c # takeWhile isspace cs)))
            (dropWhile isspace cs)). \<not> has_break s"
      by (rule "2.IH"(1)[OF True linked_after_match[OF sp] nb])
    then show ?thesis
      unfolding re_split_match[OF True] using "2.prems"(2)
      by (simp only: set_simps ball_simps) blast
  next
    case False
    have "\<not> has_break (cur @ [c])"
      using False "2.prems" by (auto simp: has_break_snoc linked_def)
    from "2.IH"(2)[OF False linked_snoc this] show ?thesis
      unfolding re_split_step[OF False] .
  qed
qed

lemma re_split_trimmed:
  assumes "cur = [] \<longrightarrow> cs = [] \<or> \<not> isspace (hd cs)"
    and "cur \<noteq> [] \<longrightarrow> \<not> isspace (hd cur)"
    and "cur @ cs \<noteq> [] \<longrightarrow> \<not> isspace (last (cur @ cs))"
    and "linked cur prev"
  shows "\<forall>s\<in>set (re_split cur prev cs). trimmed s"
  using assms
proof (induction cur prev cs rule: re_split.induct)
  case (1 cur prev)
  then show ?case by (auto simp: trimmed_def)
next
  case (2 cur prev c cs)
  show ?case
  proof (cases "lookbehind prev \<and> isspace c")
    case True
    let ?cs' = "dropWhile isspace cs"
    have c: "cur \<noteq> []" "is_terminal (last cur)"
      using linked_match[OF "2.prems"(4)] True by auto
    then have t: "trimmed cur"
      using "2.prems"(2) isspace_not_terminal by (auto simp: trimmed_def)
    have h: "[] = [] \<longrightarrow> ?cs' = [] \<or> \<not> isspace (hd ?cs')"
      using hd_dropWhile[of isspace cs] by auto
    have "?cs' \<noteq> [] \<Longrightarrow> last ?cs' = last (cur @ c # cs)"
      by (metis append_is_Nil_conv last_appendR list.distinct(1) takeWhile_dropWhile_id last_ConsR)
    then have l: "[] @ ?cs' \<noteq> [] \<longrightarrow> \<not> isspace (last ([] @ ?cs'))"
      using "2.prems"(3) by auto
    have sp: "isspace c" using True by simp
    have e: "[] \<noteq> [] \<longrightarrow> \<not> isspace (hd [])" by simp
    have "\<forall>s\<in>set (re_split [] (Some (last (c # takeWhile isspace cs))) ?cs'). trimmed s"
      by (rule "2.IH"(1)[OF True h e l linked_after_match[OF sp]])
    then show ?thesis
      unfolding re_split_match[OF True] using t
      by (simp only: set_simps ball_simps)
  next
    case False
    have nc: "cur = [] \<Longrightarrow> \<not> isspace c" using "2.prems"(1) by simp
    have 1: "cur @ [c] = [] \<longrightarrow> cs = [] \<or> \<not> isspace (hd cs)" by simp
    have 2: "cur @ [c] \<noteq> [] \<longrightarrow> \<not> isspace (hd (cur @ [c]))"
      using "2.prems"(2) nc by (cases cur) auto
    have 3: "(cur @ [c]) @ cs \<noteq> [] \<longrightarrow> \<not> isspace (last ((cur @ [c]) @ cs))"
      using "2.prems"(3) by simp
    from "2.IH"(2)[OF False 1 2 3 linked_snoc] show ?thesis
      unfolding re_split_step[OF False] .
  qed
qed

lemma re_split_no_break:
  "\<not> has_break (case prev of None \<Rightarrow> cs | Some p \<Rightarrow> p # cs) \<Longrightarrow>
   re_split cur prev cs = [cur @ cs]"
proof (induction cur prev cs rule: re_split.induct)
  case (1 cur prev)
  show ?case by simp
next
  case (2 cur prev c cs)
  have nm: "\<not> (lookbehind prev \<and> isspace c)"
    using "2.prems" by (cases prev) auto
  have "\<not> has_break (c # cs)"
    using "2.prems" by (cases prev) auto
  then show ?case
    unfolding re_split_step[OF nm] using "2.IH"(2)[OF nm] by simp
qed

lemma strip_decomp:
  "\<exists>l r. t = l @ strip t @ r \<and> list_all isspace l \<and> list_all isspace r"
proof -
  let ?u = "dropWhile isspace t"
  have 1: "t = takeWhile isspace t @ ?u" by simp
  have "rev (takeWhile isspace (rev ?u) @ dropWhile isspace (rev ?u)) = rev (rev ?u)"
    by (simp only: takeWhile_dropWhile_id)
  then have "rev (dropWhile isspace (rev ?u)) @ rev (takeWhile isspace (rev ?u)) = ?u"
    by (simp only: rev_append rev_rev_ident)
  then have 2: "?u = strip t @ rev (takeWhile isspace (rev ?u))"
    by (simp only: strip_def)
  have 3: "list_all isspace (takeWhile isspace t)"
    by (auto simp: list_all_iff dest: set_takeWhileD)
  have 4: "list_all isspace (rev (takeWhile isspace (rev ?u)))"
    by (auto simp: list_all_iff dest: set_takeWhileD)
  have "t = takeWhile isspace t @ strip t @ rev (takeWhile isspace (rev ?u))"
    using 1 2 by metis
  then show ?thesis using 3 4 by blast
qed

lemma strip_trimmed: "trimmed (strip t)"
proof (cases "strip t = []")
  case True
  then show ?thesis by (simp add: trimmed_def)
next
  case False
  let ?u = "dropWhile isspace t"
  let ?v = "dropWhile isspace (rev ?u)"
  have s: "strip t = rev ?v" by (simp add: strip_def)
  have v: "?v \<noteq> []" using False s by simp
  then have "\<not> isspace (hd ?v)" by (rule hd_dropWhile)
  then have l: "\<not> isspace (last (strip t))" using v by (simp add: s last_rev)
  have u: "?u \<noteq> []"
  proof
    assume a: "?u = []"
    show False using v unfolding a by simp
  qed
  then have hu: "\<not> isspace (hd ?u)" by (rule hd_dropWhile)
  have "rev (takeWhile isspace (rev ?u) @ ?v) = rev (rev ?u)"
    by (simp only: takeWhile_dropWhile_id)
  then have "rev ?v @ rev (takeWhile isspace (rev ?u)) = ?u"
    by (simp only: rev_append rev_rev_ident)
  then have "?u = strip t @ rev (takeWhile isspace (rev ?u))" by (simp only: s)
  then have "hd ?u = hd (strip t)" using False by (metis hd_append2)
  then show ?thesis using hu l by (simp add: trimmed_def)
qed

lemma strip_id: "trimmed s \<Longrightarrow> strip s = s"
proof (cases "s = []")
  case True
  then show ?thesis by (simp add: strip_def)
next
  case False
  assume "trimmed s"
  then have h: "\<not> isspace (hd s)" and l: "\<not> isspace (last s)"
    using False by (auto simp: trimmed_def)
  have 1: "dropWhile isspace s = s" using h False by (cases s) auto
  have "\<not> isspace (hd (rev s))" using l False by (simp add: hd_rev)
  then have "dropWhile isspace (rev s) = rev s" using False by (cases "rev s") auto
  then show ?thesis by (simp add: strip_def 1)
qed

lemma has_break_append_left: "has_break xs \<Longrightarrow> has_break (xs @ ys)"
  by (induction xs rule: has_break.induct) auto

lemma has_break_Cons: "has_break ys \<Longrightarrow> has_break (x # ys)"
  by (cases ys) auto

lemma has_break_append_right: "has_break ys \<Longrightarrow> has_break (xs @ ys)"
  by (induction xs) (auto intro: has_break_Cons)

lemma has_break_strip: "has_break (strip t) \<Longrightarrow> has_break t"
proof -
  assume b: "has_break (strip t)"
  obtain l r where t: "t = l @ strip t @ r" using strip_decomp by blast
  have "has_break (l @ strip t @ r)"
    using b by (intro has_break_append_right has_break_append_left)
  then show ?thesis using t by simp
qed

lemma filter_strip: "filter (\<lambda>c. \<not> isspace c) (strip t) = filter (\<lambda>c. \<not> isspace c) t"
proof -
  obtain l r where t: "t = l @ strip t @ r" and lr: "list_all isspace l" "list_all isspace r"
    using strip_decomp by blast
  have "filter (\<lambda>c. \<not> isspace c) l = []" "filter (\<lambda>c. \<not> isspace c) r = []"
    using lr by (auto simp: list_all_iff filter_empty_conv)
  then have "filter (\<lambda>c. \<not> isspace c) (l @ strip t @ r) = filter (\<lambda>c. \<not> isspace c) (strip t)"
    by simp
  then show ?thesis using t by simp
qed

lemma join_weave: "ss \<noteq> [] \<Longrightarrow> join sep ss = weave ss (replicate (length ss - 1) sep)"
  by (induction sep ss rule: join.induct) auto

lemma filter_weave:
  "length ss = Suc (length gs) \<Longrightarrow> list_all whitespace_run gs \<Longrightarrow>
   filter (\<lambda>c. \<not> isspace c) (weave ss gs) = filter (\<lambda>c. \<not> isspace c) (concat ss)"
proof (induction ss gs rule: weave.induct)
  case (1 s ss g gs)
  have "filter (\<lambda>c. \<not> isspace c) g = []"
    using "1.prems"(2) by (auto simp: whitespace_run_def list_all_iff filter_empty_conv)
  then show ?case using 1 by simp
qed auto

lemma split_sentences_weave:
  "\<exists>gaps. length (split_sentences text) = Suc (length gaps)
        \<and> list_all whitespace_run gaps
        \<and> weave (split_sentences text) gaps = strip text"
  using re_split_weave[of "[]" None "strip text"] by (simp add: split_sentences_def)

lemma split_sentences_trimmed: "\<forall>s\<in>set (split_sentences text). trimmed s"
  unfolding split_sentences_def
proof (rule re_split_trimmed)
  show "[] = [] \<longrightarrow> strip text = [] \<or> \<not> isspace (hd (strip text))"
    using strip_trimmed[of "text"] by (auto simp: trimmed_def)
  show "[] @ strip text \<noteq> [] \<longrightarrow> \<not> isspace (last ([] @ strip text))"
    using strip_trimmed[of "text"] by (auto simp: trimmed_def)
qed (simp_all add: linked_def)

lemma split_sentences_no_break:
  "\<not> has_break text \<Longrightarrow> split_sentences text = [strip text]"
  using re_split_no_break[where prev = None and cs = "strip text" and cur = "[]"] has_break_strip[of "text"]
  by (auto simp: split_sentences_def)

text \<open>
  C4: \<open>split_sentences\<close> breaks the text, taken without its leading and trailing
  whitespace, immediately after every \<open>.\<close>, \<open>!\<close> or \<open>?\<close> that whitespace follows: the
  trimmed text is the segments, in order, interleaved with non-empty whitespace runs;
  every segment but the last ends with a terminal; no segment still contains a
  terminal followed by whitespace; every segment is free of leading and trailing
  whitespace; empty input gives the single empty segment; a text with no terminal
  followed by whitespace gives one segment.
\<close>

theorem split_sentences_breaks:
  "(\<exists>gaps. length (split_sentences text) = Suc (length gaps)
        \<and> list_all whitespace_run gaps
        \<and> weave (split_sentences text) gaps = strip text)
   \<and> (\<forall>s\<in>set (butlast (split_sentences text)). s \<noteq> [] \<and> is_terminal (last s))
   \<and> (\<forall>s\<in>set (split_sentences text). \<not> has_break s \<and> trimmed s)
   \<and> split_sentences [] = [[]]
   \<and> (\<not> has_break text \<longrightarrow> split_sentences text = [strip text])"
proof -
  have 1: "\<forall>s\<in>set (butlast (split_sentences text)). s \<noteq> [] \<and> is_terminal (last s)"
    unfolding split_sentences_def
    by (rule butlast_re_split_terminal) (simp add: linked_def)
  have 2: "\<forall>s\<in>set (split_sentences text). \<not> has_break s"
    unfolding split_sentences_def
    by (rule re_split_no_inner_break) (simp_all add: linked_def)
  have 3: "split_sentences [] = [[]]"
    by (simp add: split_sentences_def strip_def)
  show ?thesis
    using split_sentences_weave[of "text"] 1 2 3 split_sentences_trimmed[of "text"]
      split_sentences_no_break[of "text"]
    by blast
qed

theorem split_sentences_breaks_witness:
  "split_sentences ''  Hi.  How are you? Fine! '' = [''Hi.'', ''How are you?'', ''Fine!'']
   \<and> weave [''Hi.'', ''How are you?'', ''Fine!''] [''  '', '' ''] = strip ''  Hi.  How are you? Fine! ''
   \<and> is_terminal (last ''Hi.'') \<and> is_terminal (last ''How are you?'')
   \<and> \<not> has_break ''How are you?'' \<and> trimmed ''Fine!''
   \<and> \<not> has_break ''No break.Here'' \<and> split_sentences ''No break.Here'' = [''No break.Here'']"
proof -
  have e: "split_sentences ''  Hi.  How are you? Fine! '' = [''Hi.'', ''How are you?'', ''Fine!'']"
    by code_simp
  have s: "strip ''  Hi.  How are you? Fine! '' = ''Hi.  How are you? Fine!''"
    by code_simp
  have n: "\<not> has_break ''No break.Here''" "strip ''No break.Here'' = ''No break.Here''"
    by code_simp+
  show ?thesis
    using split_sentences_breaks[of "''  Hi.  How are you? Fine! ''"]
      split_sentences_breaks[of "''No break.Here''"]
    by (simp add: e s n trimmed_def is_terminal_def isspace_def)
qed

text \<open>
  The single-space normalisation of inter-sentence whitespace, read from the
  specification and defined without the splitter: \<open>normalize s\<close> is \<open>s\<close> with every
  whitespace run that follows \<open>.\<close>, \<open>!\<close> or \<open>?\<close> replaced by one space and every other
  character kept (\<open>after_terminal\<close>: the character before is a terminal; \<open>in_gap\<close>: the
  character before belongs to such a run).
\<close>

fun normalize_from :: "bool \<Rightarrow> bool \<Rightarrow> string \<Rightarrow> string" where
  "normalize_from after_terminal in_gap [] = []"
| "normalize_from after_terminal in_gap (c # cs) =
     (if isspace c \<and> in_gap then normalize_from False True cs
      else if isspace c \<and> after_terminal then CHR '' '' # normalize_from False True cs
      else c # normalize_from (is_terminal c) False cs)"

definition normalize :: "string \<Rightarrow> string" where
  "normalize s = normalize_from False False s"

lemma normalize_from_gap:
  "normalize_from False True cs = normalize_from False False (dropWhile isspace cs)"
  by (induction cs) auto

lemma join_Cons: "rest \<noteq> [] \<Longrightarrow> join sep (s # rest) = s @ sep @ join sep rest"
  by (cases rest) auto

lemma lookbehind_after_match:
  "isspace c \<Longrightarrow> \<not> lookbehind (Some (last (c # takeWhile isspace cs)))"
  using last_run_isspace[of c cs] isspace_not_terminal by (simp del: last.simps)

lemma join_re_split:
  "join '' '' (re_split cur prev cs) = cur @ normalize_from (lookbehind prev) False cs"
proof (induction cur prev cs rule: re_split.induct)
  case (1 cur prev)
  show ?case by simp
next
  case (2 cur prev c cs)
  show ?case
  proof (cases "lookbehind prev \<and> isspace c")
    case True
    then have sp: "isspace c" and lb: "lookbehind prev" by simp_all
    let ?rest = "re_split [] (Some (last (c # takeWhile isspace cs))) (dropWhile isspace cs)"
    have ne: "?rest \<noteq> []" by (rule re_split_not_Nil)
    have "join '' '' ?rest = normalize_from False False (dropWhile isspace cs)"
      using "2.IH"(1)[OF True] lookbehind_after_match[OF sp, of cs] by (simp del: last.simps)
    then have "join '' '' (cur # ?rest) = cur @ '' '' @ normalize_from False True cs"
      using join_Cons[OF ne] by (simp add: normalize_from_gap del: last.simps)
    moreover have "normalize_from (lookbehind prev) False (c # cs)
                   = CHR '' '' # normalize_from False True cs"
      using sp lb by simp
    ultimately show ?thesis
      unfolding re_split_match[OF True] by (simp del: last.simps)
  next
    case False
    have "normalize_from (lookbehind prev) False (c # cs)
          = c # normalize_from (is_terminal c) False cs"
      using False by auto
    then show ?thesis
      unfolding re_split_step[OF False] using "2.IH"(2)[OF False] by simp
  qed
qed

lemma join_split_sentences: "join '' '' (split_sentences text) = normalize (strip text)"
  by (simp add: split_sentences_def normalize_def join_re_split)

text \<open>
  C5 (as the code has it): \<open>split_sentences\<close> never returns the empty sequence, and
  joining its segments with single spaces gives the text without its leading and
  trailing whitespace, with every whitespace run that follows a sentence terminal
  replaced by one space and nothing else changed: the trimmed text is the segments
  interleaved with non-empty whitespace runs, every run follows a segment that ends
  in \<open>.\<close>, \<open>!\<close> or \<open>?\<close>, no terminal followed by whitespace is left inside a segment, and
  the non-whitespace characters of the input are kept in order.
\<close>

theorem split_sentences_rejoin_stripped:
  "split_sentences text \<noteq> []
   \<and> join '' '' (split_sentences text) = normalize (strip text)
   \<and> (\<exists>l r. list_all isspace l \<and> list_all isspace r \<and> text = l @ strip text @ r)
   \<and> (\<exists>gaps. length (split_sentences text) = Suc (length gaps)
         \<and> list_all whitespace_run gaps
         \<and> weave (split_sentences text) gaps = strip text
         \<and> join '' '' (split_sentences text)
             = weave (split_sentences text) (replicate (length gaps) '' ''))
   \<and> (\<forall>s\<in>set (butlast (split_sentences text)). s \<noteq> [] \<and> is_terminal (last s))
   \<and> (\<forall>s\<in>set (split_sentences text). \<not> has_break s)
   \<and> filter (\<lambda>c. \<not> isspace c) (concat (split_sentences text))
       = filter (\<lambda>c. \<not> isspace c) text"
proof -
  obtain gaps where g: "length (split_sentences text) = Suc (length gaps)"
    "list_all whitespace_run gaps" "weave (split_sentences text) gaps = strip text"
    using split_sentences_weave[of "text"] by blast
  have ne: "split_sentences text \<noteq> []" using g(1) by auto
  have j: "join '' '' (split_sentences text)
             = weave (split_sentences text) (replicate (length gaps) '' '')"
    using join_weave[OF ne, of "'' ''"] g(1) by simp
  have "filter (\<lambda>c. \<not> isspace c) (concat (split_sentences text))
        = filter (\<lambda>c. \<not> isspace c) (strip text)"
    using filter_weave[OF g(1,2)] g(3) by simp
  then have f: "filter (\<lambda>c. \<not> isspace c) (concat (split_sentences text))
        = filter (\<lambda>c. \<not> isspace c) text"
    by (simp add: filter_strip)
  have t: "\<forall>s\<in>set (butlast (split_sentences text)). s \<noteq> [] \<and> is_terminal (last s)"
    unfolding split_sentences_def
    by (rule butlast_re_split_terminal) (simp add: linked_def)
  have b: "\<forall>s\<in>set (split_sentences text). \<not> has_break s"
    unfolding split_sentences_def
    by (rule re_split_no_inner_break) (simp_all add: linked_def)
  have d: "\<exists>l r. list_all isspace l \<and> list_all isspace r \<and> text = l @ strip text @ r"
    using strip_decomp[of "text"] by blast
  show ?thesis using ne join_split_sentences[of "text"] d g j t b f by blast
qed

theorem split_sentences_rejoin_stripped_witness:
  "split_sentences ''  Hi.  How are  you? Fine! '' = [''Hi.'', ''How are  you?'', ''Fine!'']
   \<and> join '' '' (split_sentences ''  Hi.  How are  you? Fine! '') = ''Hi. How are  you? Fine!''
   \<and> normalize (strip ''  Hi.  How are  you? Fine! '') = ''Hi. How are  you? Fine!''
   \<and> is_terminal (last ''Hi.'') \<and> is_terminal (last ''How are  you?'')
   \<and> filter (\<lambda>c. \<not> isspace c) (concat (split_sentences ''  Hi.  How are  you? Fine! ''))
       = ''Hi.Howareyou?Fine!''"
proof -
  have e: "split_sentences ''  Hi.  How are  you? Fine! '' = [''Hi.'', ''How are  you?'', ''Fine!'']"
    by code_simp
  have n: "normalize (strip ''  Hi.  How are  you? Fine! '') = ''Hi. How are  you? Fine!''"
    by code_simp
  have f: "filter (\<lambda>c. \<not> isspace c) ''  Hi.  How are  you? Fine! '' = ''Hi.Howareyou?Fine!''"
    by code_simp
  have i: "join '' '' (split_sentences ''  Hi.  How are  you? Fine! '')
             = normalize (strip ''  Hi.  How are  you? Fine! '')"
    "\<forall>s\<in>set (butlast (split_sentences ''  Hi.  How are  you? Fine! '')).
        s \<noteq> [] \<and> is_terminal (last s)"
    "filter (\<lambda>c. \<not> isspace c) (concat (split_sentences ''  Hi.  How are  you? Fine! ''))
       = filter (\<lambda>c. \<not> isspace c) ''  Hi.  How are  you? Fine! ''"
    using split_sentences_rejoin_stripped[of "''  Hi.  How are  you? Fine! ''"] by blast+
  have t: "is_terminal (last ''Hi.'') \<and> is_terminal (last ''How are  you?'')"
    using i(2) unfolding e by simp
  show ?thesis using e i(1) i(3) n f t by simp
qed

text \<open>
  The text \<open> Hi.  Yo\<close>, which starts with a space: the join is \<open>Hi. Yo\<close>, while the
  text with its inter-sentence whitespace normalised still starts with the space.
\<close>

theorem split_sentences_rejoin_counterexample:
  "'' Hi.  Yo'' \<noteq> []
   \<and> join '' '' (split_sentences '' Hi.  Yo'') = ''Hi. Yo''
   \<and> normalize '' Hi.  Yo'' = '' Hi. Yo''
   \<and> join '' '' (split_sentences '' Hi.  Yo'') \<noteq> normalize '' Hi.  Yo''"
proof -
  have 1: "join '' '' (split_sentences '' Hi.  Yo'') = ''Hi. Yo''" by code_simp
  have 2: "normalize '' Hi.  Yo'' = '' Hi. Yo''" by code_simp
  show ?thesis by (simp add: 1 2)
qed

section \<open>difflib.SequenceMatcher\<close>

text \<open>
  The change detector calls \<open>difflib.SequenceMatcher(None, a, b).get_opcodes()\<close> of the
  Python standard library (\<open>Lib/difflib.py\<close>). It is modelled method by method, with
  \<open>isjunk = None\<close> (no junk: \<open>bjunk\<close> is empty, so the two junk-extension loops of
  \<open>find_longest_match\<close> never run) and \<open>autojunk = True\<close>. Indices are natural
  numbers; where the source computes \<open>i-k+1\<close> the model writes \<open>i + 1 - k\<close>, and
  \<open>j2len.get(j-1, 0)\<close> is \<open>0\<close> at \<open>j = 0\<close> (no key \<open>-1\<close>).
\<close>

text \<open>
  \<open>__chain_b\<close>: \<open>b2j\<close> maps every element of \<open>b\<close> to the ascending list of its positions
  (\<open>b2j.setdefault(elt, []).append(i)\<close> for \<open>i, elt in enumerate(b)\<close>); with \<open>isjunk =
  None\<close> the junk purge is skipped; with \<open>autojunk\<close> and \<open>n = len(b) >= 200\<close> every element
  with more than \<open>ntest = n // 100 + 1\<close> positions is deleted from \<open>b2j\<close>.
\<close>

type_synonym 'a b2j = "'a \<rightharpoonup> nat list"
type_synonym match = "nat \<times> nat \<times> nat"
type_synonym opcode = "string \<times> nat \<times> nat \<times> nat \<times> nat"

definition setdefault_append :: "nat \<times> 'a \<Rightarrow> 'a b2j \<Rightarrow> 'a b2j" where
  "setdefault_append p b2j =
     (case p of (i, elt) \<Rightarrow>
        b2j(elt \<mapsto> (case b2j elt of None \<Rightarrow> [] | Some indices \<Rightarrow> indices) @ [i]))"

definition chain_b :: "'a list \<Rightarrow> 'a b2j" where
  "chain_b b =
     (let b2j = fold setdefault_append (enumerate 0 b) Map.empty;
          n = length b
      in if n \<ge> 200
         then (let ntest = n div 100 + 1
               in (\<lambda>elt. case b2j elt of None \<Rightarrow> None
                     | Some idxs \<Rightarrow> if length idxs > ntest then None else Some idxs))
         else b2j)"

text \<open>
  \<open>find_longest_match(alo, ahi, blo, bhi)\<close>. \<open>flm_rows\<close> is the loop
  \<open>for i in range(alo, ahi)\<close>, whose state is \<open>j2len\<close> and the best triple;
  \<open>flm_inner\<close> is its inner loop \<open>for j in b2j.get(a[i], nothing)\<close>, with \<open>continue\<close>
  below \<open>blo\<close> and \<open>break\<close> from \<open>bhi\<close> on, \<open>k = newj2len[j] = j2lenget(j-1, 0) + 1\<close> and
  the update of the best triple to \<open>(i-k+1, j-k+1, k)\<close> when \<open>k > bestsize\<close>.
  \<open>extend_left\<close> and \<open>extend_right\<close> are the two \<open>while\<close> loops that extend the match
  by equal elements that are not junk (the popular elements, which \<open>b2j\<close> lacks).
  \<open>get_matching_blocks\<close> calls the method on regions inside \<open>a\<close> and \<open>b\<close> only
  (\<open>mb_inv\<close> below), so no index is out of range.
\<close>

definition j2lenget :: "(nat \<rightharpoonup> nat) \<Rightarrow> nat \<Rightarrow> nat" where
  "j2lenget j2len j =
     (case j of 0 \<Rightarrow> 0 | Suc j' \<Rightarrow> (case j2len j' of None \<Rightarrow> 0 | Some k \<Rightarrow> k))"

fun flm_inner ::
  "nat \<Rightarrow> nat \<Rightarrow> nat \<Rightarrow> (nat \<rightharpoonup> nat) \<Rightarrow> nat list \<Rightarrow> (nat \<rightharpoonup> nat) \<times> match
     \<Rightarrow> (nat \<rightharpoonup> nat) \<times> match" where
  "flm_inner i blo bhi j2len [] st = st"
| "flm_inner i blo bhi j2len (j # js) (newj2len, besti, bestj, bestsize) =
     (if j < blo then flm_inner i blo bhi j2len js (newj2len, besti, bestj, bestsize)
      else if j \<ge> bhi then (newj2len, besti, bestj, bestsize)
      else (let k = j2lenget j2len j + 1
            in flm_inner i blo bhi j2len js
                 (newj2len(j \<mapsto> k),
                  if k > bestsize then (i + 1 - k, j + 1 - k, k)
                  else (besti, bestj, bestsize))))"

fun flm_rows ::
  "'a list \<Rightarrow> 'a b2j \<Rightarrow> nat \<Rightarrow> nat \<Rightarrow> nat list \<Rightarrow> (nat \<rightharpoonup> nat) \<times> match
     \<Rightarrow> (nat \<rightharpoonup> nat) \<times> match" where
  "flm_rows a b2j blo bhi [] st = st"
| "flm_rows a b2j blo bhi (i # rest) (j2len, best) =
     flm_rows a b2j blo bhi rest
       (flm_inner i blo bhi j2len
          (case b2j (a ! i) of None \<Rightarrow> [] | Some idxs \<Rightarrow> idxs) (Map.empty, best))"

function extend_left :: "'a list \<Rightarrow> 'a list \<Rightarrow> nat \<Rightarrow> nat \<Rightarrow> match \<Rightarrow> match" where
  "extend_left a b alo blo (besti, bestj, bestsize) =
     (if besti > alo \<and> bestj > blo \<and> a ! (besti - 1) = b ! (bestj - 1)
      then extend_left a b alo blo (besti - 1, bestj - 1, bestsize + 1)
      else (besti, bestj, bestsize))"
  by pat_completeness auto
termination
  by (relation "measure (\<lambda>(a, b, alo, blo, besti, bestj, bestsize). besti)") auto

function extend_right :: "'a list \<Rightarrow> 'a list \<Rightarrow> nat \<Rightarrow> nat \<Rightarrow> match \<Rightarrow> match" where
  "extend_right a b ahi bhi (besti, bestj, bestsize) =
     (if besti + bestsize < ahi \<and> bestj + bestsize < bhi
         \<and> a ! (besti + bestsize) = b ! (bestj + bestsize)
      then extend_right a b ahi bhi (besti, bestj, bestsize + 1)
      else (besti, bestj, bestsize))"
  by pat_completeness auto
termination
  by (relation "measure (\<lambda>(a, b, ahi, bhi, besti, bestj, bestsize). ahi - (besti + bestsize))")
     auto

definition find_longest_match ::
  "'a list \<Rightarrow> 'a list \<Rightarrow> 'a b2j \<Rightarrow> nat \<Rightarrow> nat \<Rightarrow> nat \<Rightarrow> nat \<Rightarrow> match" where
  "find_longest_match a b b2j alo ahi blo bhi =
     extend_right a b ahi bhi
       (extend_left a b alo blo
          (snd (flm_rows a b2j blo bhi [alo..<ahi] (Map.empty, (alo, blo, 0)))))"

subsection \<open>The match found lies inside the region\<close>

definition j2len_ok :: "nat \<Rightarrow> nat \<Rightarrow> (nat \<rightharpoonup> nat) \<Rightarrow> bool" where
  "j2len_ok blo n m = (\<forall>j k. m j = Some k \<longrightarrow> 1 \<le> k \<and> k \<le> n \<and> k + blo \<le> j + 1)"

definition within :: "nat \<Rightarrow> nat \<Rightarrow> nat \<Rightarrow> nat \<Rightarrow> match \<Rightarrow> bool" where
  "within alo ahi blo bhi m =
     (case m of (i, j, k) \<Rightarrow> alo \<le> i \<and> i + k \<le> ahi \<and> blo \<le> j \<and> j + k \<le> bhi)"

definition best_ok :: "nat \<Rightarrow> nat \<Rightarrow> nat \<Rightarrow> nat \<Rightarrow> match \<Rightarrow> bool" where
  "best_ok alo ahi blo bhi m =
     (m = (alo, blo, 0) \<or> (snd (snd m) \<noteq> 0 \<and> within alo ahi blo bhi m))"

lemma j2lenget_le:
  assumes "j2len_ok blo n m" "blo \<le> j"
  shows "j2lenget m j \<le> n" "j2lenget m j + blo \<le> j"
  using assms by (auto simp: j2len_ok_def j2lenget_def split: nat.splits option.splits)

lemma flm_inner_ok:
  assumes "j2len_ok blo (i - alo) j2len" "alo \<le> i" "i < ahi"
    and "j2len_ok blo (i + 1 - alo) (fst st)" "best_ok alo ahi blo bhi (snd st)"
  shows "j2len_ok blo (i + 1 - alo) (fst (flm_inner i blo bhi j2len js st))
       \<and> best_ok alo ahi blo bhi (snd (flm_inner i blo bhi j2len js st))"
  using assms(4,5)
proof (induction js arbitrary: st)
  case Nil
  then show ?case by simp
next
  case (Cons j js)
  obtain newj2len besti bestj bestsize where st: "st = (newj2len, besti, bestj, bestsize)"
    by (cases st) auto
  show ?case
  proof (cases "j < blo \<or> j \<ge> bhi")
    case True
    then show ?thesis using Cons st by auto
  next
    case False
    then have j: "blo \<le> j" "j < bhi" by auto
    define k where "k = j2lenget j2len j + 1"
    have k1: "k \<le> i + 1 - alo" and k2: "k + blo \<le> j + 1" and k0: "1 \<le> k"
      using j2lenget_le[OF assms(1) j(1)] assms(2) by (auto simp: k_def)
    define st' where "st' = (newj2len(j \<mapsto> k),
             if k > bestsize then (i + 1 - k, j + 1 - k, k) else (besti, bestj, bestsize))"
    have A: "j2len_ok blo (i + 1 - alo) (fst st')"
      using Cons.prems(1) k1 k2 k0 by (auto simp: st st'_def j2len_ok_def)
    have B: "best_ok alo ahi blo bhi (snd st')"
      using Cons.prems(2) k1 k2 k0 assms(2,3) j
      by (auto simp: st st'_def best_ok_def within_def)
    have "flm_inner i blo bhi j2len (j # js) st = flm_inner i blo bhi j2len js st'"
      using j by (simp add: st k_def st'_def Let_def)
    then show ?thesis using Cons.IH[OF A B] by simp
  qed
qed

lemma j2len_ok_empty: "j2len_ok blo n Map.empty"
  by (simp add: j2len_ok_def)

lemma flm_rows_ok:
  assumes "j2len_ok blo (i - alo) (fst st)" "best_ok alo ahi blo bhi (snd st)" "alo \<le> i"
  shows "best_ok alo ahi blo bhi (snd (flm_rows a b2j blo bhi [i..<ahi] st))"
  using assms
proof (induction "ahi - i" arbitrary: i st)
  case 0
  then show ?case by simp
next
  case (Suc n)
  then have lt: "i < ahi" by simp
  obtain j2len best where st: "st = (j2len, best)" by (cases st) auto
  let ?st' = "flm_inner i blo bhi j2len
          (case b2j (a ! i) of None \<Rightarrow> [] | Some idxs \<Rightarrow> idxs) (Map.empty, best)"
  have step: "j2len_ok blo (i + 1 - alo) (fst ?st') \<and> best_ok alo ahi blo bhi (snd ?st')"
    using flm_inner_ok[of blo i alo j2len ahi "(Map.empty, best)" bhi] Suc.prems lt
    by (simp add: st j2len_ok_empty)
  have "n = ahi - Suc i" using Suc.hyps(2) by simp
  from Suc.hyps(1)[OF this, of ?st'] step Suc.prems(3)
  have "best_ok alo ahi blo bhi (snd (flm_rows a b2j blo bhi [Suc i..<ahi] ?st'))"
    by simp
  then show ?case using lt by (simp add: upt_conv_Cons st)
qed

declare extend_left.simps [simp del] extend_right.simps [simp del]

lemma extend_left_ok:
  "best_ok alo ahi blo bhi m \<Longrightarrow> best_ok alo ahi blo bhi (extend_left a b alo blo m)"
proof (induction a b alo blo m rule: extend_left.induct)
  case (1 a b alo blo besti bestj bestsize)
  show ?case
  proof (cases "besti > alo \<and> bestj > blo \<and> a ! (besti - 1) = b ! (bestj - 1)")
    case True
    have "best_ok alo ahi blo bhi (besti - 1, bestj - 1, bestsize + 1)"
      using "1.prems" True by (auto simp: best_ok_def within_def)
    from "1.IH"[OF True this] True show ?thesis
      by (subst extend_left.simps) simp
  next
    case False
    then show ?thesis using "1.prems"
      by (subst extend_left.simps) auto
  qed
qed

lemma extend_right_ok:
  "best_ok alo ahi blo bhi m \<Longrightarrow> best_ok alo ahi blo bhi (extend_right a b ahi bhi m)"
proof (induction a b ahi bhi m rule: extend_right.induct)
  case (1 a b ahi bhi besti bestj bestsize)
  show ?case
  proof (cases "besti + bestsize < ahi \<and> bestj + bestsize < bhi
         \<and> a ! (besti + bestsize) = b ! (bestj + bestsize)")
    case True
    have "best_ok alo ahi blo bhi (besti, bestj, bestsize + 1)"
      using "1.prems" True by (auto simp: best_ok_def within_def)
    from "1.IH"[OF True this] True show ?thesis
      by (subst extend_right.simps) simp
  next
    case False
    then show ?thesis using "1.prems"
      by (subst extend_right.simps) auto
  qed
qed

lemma find_longest_match_ok:
  "best_ok alo ahi blo bhi (find_longest_match a b b2j alo ahi blo bhi)"
  unfolding find_longest_match_def
  by (intro extend_right_ok extend_left_ok flm_rows_ok)
     (simp_all add: j2len_ok_empty best_ok_def)

lemma find_longest_match_within:
  assumes "find_longest_match a b b2j alo ahi blo bhi = (i, j, k)" "k \<noteq> 0"
  shows "alo \<le> i" "i + k \<le> ahi" "blo \<le> j" "j + k \<le> bhi"
  using find_longest_match_ok[of alo ahi blo bhi a b b2j] assms
  by (auto simp: best_ok_def within_def)

text \<open>
  \<open>get_matching_blocks\<close>. \<open>mb_loop\<close> is the loop \<open>while queue\<close>: the head of the list
  is the end of the Python list, from which \<open>queue.pop()\<close> takes and to which
  \<open>queue.append\<close> adds, so the region to the right of a match, appended last, is
  looked at first. Its termination needs the bounds on \<open>find_longest_match\<close> proved
  above. Then \<open>matching_blocks.sort()\<close> (tuples are compared lexicographically), the
  loop that collapses adjacent blocks (\<open>collapse_step\<close>, from the dummy \<open>(0, 0, 0)\<close>) and
  the sentinel \<open>(la, lb, 0)\<close>.
\<close>

type_synonym region = "nat \<times> nat \<times> nat \<times> nat"

definition region_size :: "region \<Rightarrow> nat" where
  "region_size r = (case r of (alo, ahi, blo, bhi) \<Rightarrow> 2 * (ahi - alo) + 1)"

function mb_loop ::
  "'a list \<Rightarrow> 'a list \<Rightarrow> 'a b2j \<Rightarrow> region list \<Rightarrow> match list \<Rightarrow> match list" where
  "mb_loop a b b2j [] matching_blocks = matching_blocks"
| "mb_loop a b b2j ((alo, ahi, blo, bhi) # queue) matching_blocks =
     (case find_longest_match a b b2j alo ahi blo bhi of (i, j, k) \<Rightarrow>
        if k \<noteq> 0
        then mb_loop a b b2j
               ((if i + k < ahi \<and> j + k < bhi then [(i + k, ahi, j + k, bhi)] else [])
                @ (if alo < i \<and> blo < j then [(alo, i, blo, j)] else [])
                @ queue)
               (matching_blocks @ [(i, j, k)])
        else mb_loop a b b2j queue matching_blocks)"
  by pat_completeness auto
termination
proof (relation "measure (\<lambda>(a, b, b2j, queue, matching_blocks). sum_list (map region_size queue))")
  show "wf (measure (\<lambda>(a, b, b2j, queue, matching_blocks). sum_list (map region_size queue)))"
    by simp
next
  fix a b :: "'a list" and b2j :: "'a b2j" and alo ahi blo bhi :: nat
    and queue :: "region list" and matching_blocks :: "match list" and i y j k
  assume "(i, y) = find_longest_match a b b2j alo ahi blo bhi" "(j, k) = y" "k \<noteq> 0"
  then have flm: "find_longest_match a b b2j alo ahi blo bhi = (i, j, k)" by simp
  note w = find_longest_match_within[OF flm \<open>k \<noteq> 0\<close>]
  show "((a, b, b2j,
          (if i + k < ahi \<and> j + k < bhi then [(i + k, ahi, j + k, bhi)] else [])
          @ (if alo < i \<and> blo < j then [(alo, i, blo, j)] else []) @ queue,
          matching_blocks @ [(i, j, k)]),
         (a, b, b2j, (alo, ahi, blo, bhi) # queue, matching_blocks))
        \<in> measure (\<lambda>(a, b, b2j, queue, matching_blocks). sum_list (map region_size queue))"
    using w \<open>k \<noteq> 0\<close> by (auto simp: region_size_def)
next
  fix a b :: "'a list" and b2j :: "'a b2j" and alo ahi blo bhi :: nat
    and queue :: "region list" and matching_blocks :: "match list"
  show "((a, b, b2j, queue, matching_blocks),
         (a, b, b2j, (alo, ahi, blo, bhi) # queue, matching_blocks))
        \<in> measure (\<lambda>(a, b, b2j, queue, matching_blocks). sum_list (map region_size queue))"
    by (simp add: region_size_def)
qed

fun collapse_step :: "match \<Rightarrow> match \<times> match list \<Rightarrow> match \<times> match list" where
  "collapse_step (i2, j2, k2) ((i1, j1, k1), non_adjacent) =
     (if i1 + k1 = i2 \<and> j1 + k1 = j2
      then ((i1, j1, k1 + k2), non_adjacent)
      else ((i2, j2, k2),
            if k1 \<noteq> 0 then non_adjacent @ [(i1, j1, k1)] else non_adjacent))"

definition get_matching_blocks :: "'a list \<Rightarrow> 'a list \<Rightarrow> match list" where
  "get_matching_blocks a b =
     (let la = length a; lb = length b;
          matching_blocks = sort (mb_loop a b (chain_b b) [(0, la, 0, lb)] [])
      in case fold collapse_step matching_blocks ((0, 0, 0), []) of
           ((i1, j1, k1), non_adjacent) \<Rightarrow>
             (if k1 \<noteq> 0 then non_adjacent @ [(i1, j1, k1)] else non_adjacent)
             @ [(la, lb, 0)])"

text \<open>
  \<open>get_opcodes\<close>: for each matching block \<open>(ai, bj, size)\<close> the tag of the gap before it
  (\<open>replace\<close>, \<open>delete\<close>, \<open>insert\<close>, or none when the gap is empty on both sides), then
  the \<open>equal\<close> opcode of the block when \<open>size\<close> is not zero.
\<close>

fun opcodes_loop :: "nat \<Rightarrow> nat \<Rightarrow> match list \<Rightarrow> opcode list" where
  "opcodes_loop i j [] = []"
| "opcodes_loop i j ((ai, bj, sz) # rest) =
     (let tag = (if i < ai \<and> j < bj then ''replace''
                 else if i < ai then ''delete''
                 else if j < bj then ''insert''
                 else '''')
      in (if tag \<noteq> '''' then [(tag, i, ai, j, bj)] else [])
         @ (if sz \<noteq> 0 then [(''equal'', ai, ai + sz, bj, bj + sz)] else [])
         @ opcodes_loop (ai + sz) (bj + sz) rest)"

definition get_opcodes :: "'a list \<Rightarrow> 'a list \<Rightarrow> opcode list" where
  "get_opcodes a b = opcodes_loop 0 0 (get_matching_blocks a b)"

text \<open>
  The change detector (app.py, lines 104-108): \<open>changed_sentences.extend(polished_sentences[j1:j2])\<close>
  for every opcode whose tag is not \<open>equal\<close>. \<open>slice xs lo hi\<close> is \<open>xs[lo:hi]\<close> for
  indices that are not negative.
\<close>

definition slice :: "'a list \<Rightarrow> nat \<Rightarrow> nat \<Rightarrow> 'a list" where
  "slice xs lo hi = take (hi - lo) (drop lo xs)"

fun changed_loop :: "'a list \<Rightarrow> opcode list \<Rightarrow> 'a list" where
  "changed_loop polished_sentences [] = []"
| "changed_loop polished_sentences ((tag, i1, i2, j1, j2) # rest) =
     (if tag \<noteq> ''equal'' then slice polished_sentences j1 j2 else [])
     @ changed_loop polished_sentences rest"

definition changed_sentences :: "'a list \<Rightarrow> 'a list \<Rightarrow> 'a list" where
  "changed_sentences orig_sentences polished_sentences =
     changed_loop polished_sentences (get_opcodes orig_sentences polished_sentences)"

subsection \<open>The matching blocks increase in both sequences\<close>

declare mb_loop.simps [simp del]

definition block_before :: "match \<Rightarrow> match \<Rightarrow> bool" where
  "block_before x y =
     (case x of (i, j, k) \<Rightarrow> case y of (i', j', k') \<Rightarrow> i + k \<le> i' \<and> j + k \<le> j')"

definition region_before :: "region \<Rightarrow> region \<Rightarrow> bool" where
  "region_before r s =
     (case r of (alo, ahi, blo, bhi) \<Rightarrow> case s of (alo', ahi', blo', bhi') \<Rightarrow>
        ahi \<le> alo' \<and> bhi \<le> blo')"

definition block_apart :: "match \<Rightarrow> region \<Rightarrow> bool" where
  "block_apart x r =
     (case x of (i, j, k) \<Rightarrow> case r of (alo, ahi, blo, bhi) \<Rightarrow>
        (i + k \<le> alo \<and> j + k \<le> blo) \<or> (ahi \<le> i \<and> bhi \<le> j))"

definition mb_inv :: "nat \<Rightarrow> nat \<Rightarrow> region list \<Rightarrow> match list \<Rightarrow> bool" where
  "mb_inv la lb queue acc =
     (sorted_wrt (\<lambda>r s. region_before s r) queue
      \<and> (\<forall>r\<in>set queue. case r of (alo, ahi, blo, bhi) \<Rightarrow> ahi \<le> la \<and> bhi \<le> lb)
      \<and> (\<forall>x\<in>set acc. \<forall>r\<in>set queue. block_apart x r)
      \<and> (\<forall>x\<in>set acc. \<forall>y\<in>set acc. x = y \<or> block_before x y \<or> block_before y x)
      \<and> (\<forall>x\<in>set acc. snd (snd x) \<noteq> 0 \<and> within 0 la 0 lb x)
      \<and> distinct acc)"

lemma mb_inv_skip:
  "mb_inv la lb (r # queue) acc \<Longrightarrow> mb_inv la lb queue acc"
  by (simp add: mb_inv_def)

lemma mb_inv_step:
  assumes inv: "mb_inv la lb ((alo, ahi, blo, bhi) # queue) acc"
    and w: "alo \<le> i" "i + k \<le> ahi" "blo \<le> j" "j + k \<le> bhi" and k: "k \<noteq> 0"
  shows "mb_inv la lb
           ((if i + k < ahi \<and> j + k < bhi then [(i + k, ahi, j + k, bhi)] else [])
            @ (if alo < i \<and> blo < j then [(alo, i, blo, j)] else []) @ queue)
           (acc @ [(i, j, k)])"
proof -
  let ?R = "(i + k, ahi, j + k, bhi)" and ?L = "(alo, i, blo, j)" and ?x = "(i, j, k)"
  let ?r = "(alo, ahi, blo, bhi)"
  have q: "sorted_wrt (\<lambda>r s. region_before s r) queue"
    and qr: "\<forall>s\<in>set queue. region_before s ?r"
    and bnd: "ahi \<le> la" "bhi \<le> lb"
    and qb: "\<forall>r\<in>set queue. case r of (alo, ahi, blo, bhi) \<Rightarrow> ahi \<le> la \<and> bhi \<le> lb"
    and ar: "\<forall>x\<in>set acc. block_apart x ?r"
    and aq: "\<forall>x\<in>set acc. \<forall>r\<in>set queue. block_apart x r"
    and aa: "\<forall>x\<in>set acc. \<forall>y\<in>set acc. x = y \<or> block_before x y \<or> block_before y x"
    and ab: "\<forall>x\<in>set acc. snd (snd x) \<noteq> 0 \<and> within 0 la 0 lb x"
    and ad: "distinct acc"
    using inv by (auto simp: mb_inv_def)
  have sL: "\<forall>s\<in>set queue. region_before s ?L" and sR: "\<forall>s\<in>set queue. region_before s ?R"
    using qr w by (auto simp: region_before_def)
  have LR: "region_before ?L ?R" by (simp add: region_before_def)
  have s1: "sorted_wrt (\<lambda>r s. region_before s r)
      ((if i + k < ahi \<and> j + k < bhi then [?R] else [])
       @ (if alo < i \<and> blo < j then [?L] else []) @ queue)"
    using q sL sR LR by (auto simp: sorted_wrt_append)
  have s2: "\<forall>r\<in>set ((if i + k < ahi \<and> j + k < bhi then [?R] else [])
       @ (if alo < i \<and> blo < j then [?L] else []) @ queue).
       case r of (alo, ahi, blo, bhi) \<Rightarrow> ahi \<le> la \<and> bhi \<le> lb"
    using qb bnd w by auto
  have xq: "\<forall>r\<in>set queue. block_apart ?x r"
    using qr w by (auto simp: region_before_def block_apart_def)
  have xL: "block_apart ?x ?L" and xR: "block_apart ?x ?R"
    by (auto simp: block_apart_def)
  have aL: "\<forall>y\<in>set acc. block_apart y ?L" and aR: "\<forall>y\<in>set acc. block_apart y ?R"
    using ar w by (fastforce simp: block_apart_def)+
  have s3: "\<forall>y\<in>set (acc @ [?x]). \<forall>r\<in>set ((if i + k < ahi \<and> j + k < bhi then [?R] else [])
       @ (if alo < i \<and> blo < j then [?L] else []) @ queue). block_apart y r"
    using aq xq xL xR aL aR by auto
  have ax: "\<forall>y\<in>set acc. block_before y ?x \<or> block_before ?x y"
    using ar w by (fastforce simp: block_apart_def block_before_def)
  have s4: "\<forall>y\<in>set (acc @ [?x]). \<forall>z\<in>set (acc @ [?x]).
       y = z \<or> block_before y z \<or> block_before z y"
    using aa ax by auto
  have s5: "\<forall>y\<in>set (acc @ [?x]). snd (snd y) \<noteq> 0 \<and> within 0 la 0 lb y"
    using ab k w bnd by (auto simp: within_def)
  have "?x \<notin> set acc"
    using ax k by (auto simp: block_before_def)
  then have s6: "distinct (acc @ [?x])" using ad by simp
  show ?thesis
    unfolding mb_inv_def using s1 s2 s3 s4 s5 s6 by blast
qed

lemma mb_loop_inv:
  "mb_inv la lb queue acc \<Longrightarrow> mb_inv la lb [] (mb_loop a b b2j queue acc)"
proof (induction a b b2j queue acc rule: mb_loop.induct)
  case (1 a b b2j matching_blocks)
  then show ?case by (simp add: mb_loop.simps)
next
  case (2 a b b2j alo ahi blo bhi queue matching_blocks)
  obtain i j k where flm: "find_longest_match a b b2j alo ahi blo bhi = (i, j, k)"
    by (metis prod_cases3)
  show ?case
  proof (cases "k = 0")
    case True
    have "mb_inv la lb queue matching_blocks" using "2.prems" by (rule mb_inv_skip)
    from "2.IH"(2)[OF flm[symmetric] refl _ this] True flm show ?thesis
      by (simp add: mb_loop.simps)
  next
    case False
    note w = find_longest_match_within[OF flm False]
    have "mb_inv la lb
           ((if i + k < ahi \<and> j + k < bhi then [(i + k, ahi, j + k, bhi)] else [])
            @ (if alo < i \<and> blo < j then [(alo, i, blo, j)] else []) @ queue)
           (matching_blocks @ [(i, j, k)])"
      using mb_inv_step[OF "2.prems" w False] .
    from "2.IH"(1)[OF flm[symmetric] refl False this] False flm show ?thesis
      by (simp add: mb_loop.simps)
  qed
qed

lemma block_before_simp [simp]:
  "block_before (i, j, k) (i', j', k') = (i + k \<le> i' \<and> j + k \<le> j')"
  by (simp add: block_before_def)

lemma within_simp [simp]:
  "within alo ahi blo bhi (i, j, k) = (alo \<le> i \<and> i + k \<le> ahi \<and> blo \<le> j \<and> j + k \<le> bhi)"
  by (simp add: within_def)

lemma mb_inv_init: "mb_inv (length a) (length b) [(0, length a, 0, length b)] []"
  by (simp add: mb_inv_def)

lemma sorted_blocks:
  assumes "mb_inv la lb [] acc"
  shows "sorted_wrt block_before (sort acc)"
proof -
  have aa: "\<forall>x\<in>set acc. \<forall>y\<in>set acc. x = y \<or> block_before x y \<or> block_before y x"
    and ab: "\<forall>x\<in>set acc. snd (snd x) \<noteq> 0" and ad: "distinct acc"
    using assms by (auto simp: mb_inv_def)
  have "sorted_wrt (<) (sort acc)"
    using ad by (simp add: strict_sorted_iff)
  moreover have "block_before x y" if "x \<in> set (sort acc)" "y \<in> set (sort acc)" "x < y" for x y
  proof -
    obtain i j k i' j' k' where xy: "x = (i, j, k)" "y = (i', j', k')"
      by (metis prod_cases3)
    have "i \<le> i'" using that(3) by (auto simp: xy less_prod_def)
    moreover have "k' \<noteq> 0" using ab that(2) by (auto simp: xy)
    ultimately have "\<not> block_before y x" by (auto simp: xy)
    moreover have "x \<noteq> y" using that(3) by auto
    ultimately show ?thesis using aa that(1,2) by auto
  qed
  ultimately show ?thesis by (rule sorted_wrt_mono_rel[rotated])
qed

lemma collapse_fold:
  assumes "sorted_wrt block_before (na @ [cur] @ rest)"
    and "\<forall>x\<in>set (na @ [cur] @ rest). within 0 la 0 lb x"
  shows "case fold collapse_step rest (cur, na) of (cur', na') \<Rightarrow>
           sorted_wrt block_before (na' @ [cur'])
           \<and> (\<forall>x\<in>set (na' @ [cur']). within 0 la 0 lb x)"
  using assms
proof (induction rest arbitrary: cur na)
  case Nil
  then show ?case by simp
next
  case (Cons x rest)
  obtain i1 j1 k1 i2 j2 k2 where c: "cur = (i1, j1, k1)" and x: "x = (i2, j2, k2)"
    by (metis prod_cases3)
  show ?case
  proof (cases "i1 + k1 = i2 \<and> j1 + k1 = j2")
    case True
    have 1: "sorted_wrt block_before (na @ [(i1, j1, k1 + k2)] @ rest)"
      using Cons.prems(1) True
      by (auto simp: c x sorted_wrt_append)
    have 2: "\<forall>y\<in>set (na @ [(i1, j1, k1 + k2)] @ rest). within 0 la 0 lb y"
      using Cons.prems(2) True by (auto simp: c x)
    have "fold collapse_step (x # rest) (cur, na) = fold collapse_step rest ((i1, j1, k1 + k2), na)"
      using True by (simp add: c x)
    then show ?thesis using Cons.IH[OF 1 2] by simp
  next
    case False
    let ?na = "if k1 \<noteq> 0 then na @ [(i1, j1, k1)] else na"
    have 1: "sorted_wrt block_before (?na @ [x] @ rest)"
      using Cons.prems(1) by (auto simp: c sorted_wrt_append)
    have 2: "\<forall>y\<in>set (?na @ [x] @ rest). within 0 la 0 lb y"
      using Cons.prems(2) by (auto simp: c)
    have "fold collapse_step (x # rest) (cur, na) = fold collapse_step rest (x, ?na)"
      using False by (auto simp: c x)
    then show ?thesis using Cons.IH[OF 1 2] by simp
  qed
qed

lemma get_matching_blocks_monotone:
  "sorted_wrt block_before (get_matching_blocks a b)
   \<and> get_matching_blocks a b \<noteq> []
   \<and> last (get_matching_blocks a b) = (length a, length b, 0)"
proof -
  let ?la = "length a" and ?lb = "length b"
  let ?mbs = "sort (mb_loop a b (chain_b b) [(0, ?la, 0, ?lb)] [])"
  have inv: "mb_inv ?la ?lb [] (mb_loop a b (chain_b b) [(0, ?la, 0, ?lb)] [])"
    by (rule mb_loop_inv[OF mb_inv_init])
  have s: "sorted_wrt block_before ([] @ [(0, 0, 0)] @ ?mbs)"
    using sorted_blocks[OF inv] by auto
  have w: "\<forall>x\<in>set ([] @ [(0, 0, 0)] @ ?mbs). within 0 ?la 0 ?lb x"
    using inv by (auto simp: mb_inv_def)
  obtain i1 j1 k1 non_adjacent where
    f: "fold collapse_step ?mbs ((0, 0, 0), []) = ((i1, j1, k1), non_adjacent)"
    by (metis surj_pair)
  have c: "sorted_wrt block_before (non_adjacent @ [(i1, j1, k1)])"
    "\<forall>x\<in>set (non_adjacent @ [(i1, j1, k1)]). within 0 ?la 0 ?lb x"
    using collapse_fold[OF s w] f by auto
  let ?res = "(if k1 \<noteq> 0 then non_adjacent @ [(i1, j1, k1)] else non_adjacent)"
  have r: "get_matching_blocks a b = ?res @ [(?la, ?lb, 0)]"
    by (simp add: get_matching_blocks_def Let_def f)
  have "sorted_wrt block_before ?res"
    using c(1) by (auto simp: sorted_wrt_append)
  moreover have "\<forall>x\<in>set ?res. block_before x (?la, ?lb, 0)"
    using c(2) by auto
  ultimately have "sorted_wrt block_before (?res @ [(?la, ?lb, 0)])"
    by (simp add: sorted_wrt_append)
  then show ?thesis unfolding r by simp
qed

subsection \<open>The spans of the opcodes follow each other\<close>

fun b_chained :: "nat \<Rightarrow> nat \<Rightarrow> opcode list \<Rightarrow> bool" where
  "b_chained j n [] = (j = n)"
| "b_chained j n ((tag, i1, i2, j1, j2) # rest) = (j1 = j \<and> j \<le> j2 \<and> b_chained j2 n rest)"

lemma b_chained_append:
  "b_chained j m xs \<Longrightarrow> b_chained m n ys \<Longrightarrow> b_chained j n (xs @ ys)"
  by (induction xs arbitrary: j) auto

lemma opcodes_loop_chained:
  assumes "sorted_wrt block_before ((i, j, 0) # bs)" "bs \<noteq> []" "last bs = (la, lb, 0)"
  shows "b_chained j lb (opcodes_loop i j bs)"
  using assms
proof (induction bs arbitrary: i j)
  case Nil
  then show ?case by simp
next
  case (Cons x bs)
  obtain ai bj sz where x: "x = (ai, bj, sz)" by (metis prod_cases3)
  have le: "i \<le> ai" "j \<le> bj" using Cons.prems(1) by (auto simp: x)
  let ?tag = "(if i < ai \<and> j < bj then ''replace''
                 else if i < ai then ''delete''
                 else if j < bj then ''insert''
                 else '''')"
  have 1: "b_chained j bj (if ?tag \<noteq> '''' then [(?tag, i, ai, j, bj)] else [])"
    using le by auto
  have 2: "b_chained bj (bj + sz) (if sz \<noteq> 0 then [(''equal'', ai, ai + sz, bj, bj + sz)] else [])"
    by auto
  have 3: "b_chained (bj + sz) lb (opcodes_loop (ai + sz) (bj + sz) bs)"
  proof (cases "bs = []")
    case True
    then show ?thesis using Cons.prems(3) by (simp add: x)
  next
    case False
    have "sorted_wrt block_before ((ai + sz, bj + sz, 0) # bs)"
      using Cons.prems(1) by (auto simp: x)
    then show ?thesis using Cons.IH False Cons.prems(3) by simp
  qed
  have "opcodes_loop i j (x # bs) =
     (if ?tag \<noteq> '''' then [(?tag, i, ai, j, bj)] else [])
         @ (if sz \<noteq> 0 then [(''equal'', ai, ai + sz, bj, bj + sz)] else [])
         @ opcodes_loop (ai + sz) (bj + sz) bs"
    by (simp add: x Let_def)
  then show ?case using b_chained_append[OF 1 b_chained_append[OF 2 3]] by simp
qed

lemma get_opcodes_chained: "b_chained 0 (length b) (get_opcodes a b)"
proof -
  have m: "sorted_wrt block_before (get_matching_blocks a b)"
    "get_matching_blocks a b \<noteq> []"
    "last (get_matching_blocks a b) = (length a, length b, 0)"
    using get_matching_blocks_monotone[of a b] by auto
  have "sorted_wrt block_before ((0, 0, 0) # get_matching_blocks a b)"
    using m(1) by auto
  from opcodes_loop_chained[OF this m(2) m(3)] show ?thesis
    by (simp add: get_opcodes_def)
qed

definition b_span :: "opcode \<Rightarrow> nat list" where
  "b_span op = (case op of (tag, i1, i2, j1, j2) \<Rightarrow> [j1..<j2])"

definition covers :: "nat \<Rightarrow> opcode \<Rightarrow> bool" where
  "covers p op = (case op of (tag, i1, i2, j1, j2) \<Rightarrow> j1 \<le> p \<and> p < j2)"

definition in_equal_span :: "opcode list \<Rightarrow> nat \<Rightarrow> bool" where
  "in_equal_span ops p = list_ex (\<lambda>op. fst op = ''equal'' \<and> covers p op) ops"

lemma b_chained_le: "b_chained j n ops \<Longrightarrow> j \<le> n"
  by (induction ops arbitrary: j) (auto intro: le_trans)

lemma b_chained_spans: "b_chained j n ops \<Longrightarrow> concat (map b_span ops) = [j..<n]"
proof (induction ops arbitrary: j)
  case Nil
  then show ?case by simp
next
  case (Cons op ops)
  obtain tag i1 i2 j1 j2 where op: "op = (tag, i1, i2, j1, j2)" by (metis prod_cases5)
  have c: "j1 = j" "j \<le> j2" "b_chained j2 n ops" using Cons.prems by (auto simp: op)
  have "j2 \<le> n" using c(3) by (rule b_chained_le)
  then have "[j..<n] = [j..<j2] @ [j2..<n]"
    using c(2) by (metis le_Suc_ex upt_add_eq_append)
  then show ?case using Cons.IH[OF c(3)] c(1) by (simp add: op b_span_def)
qed

lemma b_chained_cover_count:
  "b_chained j n ops \<Longrightarrow> length (filter (covers p) ops) = (if j \<le> p \<and> p < n then 1 else 0)"
proof (induction ops arbitrary: j)
  case Nil
  then show ?case by auto
next
  case (Cons op ops)
  obtain tag i1 i2 j1 j2 where op: "op = (tag, i1, i2, j1, j2)" by (metis prod_cases5)
  have c: "j1 = j" "j \<le> j2" "b_chained j2 n ops" using Cons.prems by (auto simp: op)
  have "j2 \<le> n" using c(3) by (rule b_chained_le)
  then show ?case using Cons.IH[OF c(3)] c(1,2) by (auto simp: op covers_def)
qed

lemma b_chained_not_covered:
  "b_chained j n ops \<Longrightarrow> p < j \<Longrightarrow> \<not> list_ex (\<lambda>op. P op \<and> covers p op) ops"
proof (induction ops arbitrary: j)
  case Nil
  then show ?case by simp
next
  case (Cons op ops)
  obtain tag i1 i2 j1 j2 where op: "op = (tag, i1, i2, j1, j2)" by (metis prod_cases5)
  have c: "j1 = j" "j \<le> j2" "b_chained j2 n ops" using Cons.prems by (auto simp: op)
  have "\<not> list_ex (\<lambda>op. P op \<and> covers p op) ops"
    using Cons.IH[OF c(3)] Cons.prems(2) c(2) by simp
  then show ?case using c(1) Cons.prems(2) by (simp add: op covers_def)
qed

lemma slice_nths: "hi \<le> length xs \<Longrightarrow> slice xs lo hi = map (\<lambda>p. xs ! p) [lo..<hi]"
  by (rule nth_equalityI) (auto simp: slice_def)


subsection \<open>Changed sentences are the positions outside equal spans\<close>

lemma changed_loop_chained:
  assumes "b_chained j n ops" "n \<le> length b"
  shows "changed_loop b ops = map (\<lambda>p. b ! p) (filter (\<lambda>p. \<not> in_equal_span ops p) [j..<n])"
  using assms(1)
proof (induction ops arbitrary: j)
  case Nil
  then show ?case by simp
next
  case (Cons op ops)
  obtain tag i1 i2 j1 j2 where op: "op = (tag, i1, i2, j1, j2)" by (metis prod_cases5)
  have c: "j1 = j" "j \<le> j2" "b_chained j2 n ops" using Cons.prems by (auto simp: op)
  have j2n: "j2 \<le> n" using c(3) by (rule b_chained_le)
  have split: "[j..<n] = [j..<j2] @ [j2..<n]"
    using c(2) j2n by (metis le_Suc_ex upt_add_eq_append)
  have low: "filter (\<lambda>p. \<not> in_equal_span (op # ops) p) [j..<j2]
             = (if tag \<noteq> ''equal'' then [j..<j2] else [])"
  proof -
    have "in_equal_span (op # ops) p = (tag = ''equal'')" if "p \<in> set [j..<j2]" for p
      using that b_chained_not_covered[OF c(3), of p "\<lambda>op. fst op = ''equal''"] c(1)
      by (auto simp: in_equal_span_def op covers_def)
    then have "filter (\<lambda>p. \<not> in_equal_span (op # ops) p) [j..<j2]
               = filter (\<lambda>p. tag \<noteq> ''equal'') [j..<j2]"
      by (intro filter_cong) auto
    then show ?thesis by simp
  qed
  have high: "filter (\<lambda>p. \<not> in_equal_span (op # ops) p) [j2..<n]
              = filter (\<lambda>p. \<not> in_equal_span ops p) [j2..<n]"
    by (intro filter_cong) (auto simp: in_equal_span_def op covers_def)
  have sl: "slice b j1 j2 = map (\<lambda>p. b ! p) [j..<j2]"
    using slice_nths[of j2 b j1] j2n assms(2) c(1) by simp
  show ?case
    using Cons.IH[OF c(3)] low high sl by (simp add: op split)
qed

lemma changed_sentences_positions:
  "changed_sentences a b =
     map (\<lambda>p. b ! p) (filter (\<lambda>p. \<not> in_equal_span (get_opcodes a b) p) [0..<length b])"
  unfolding changed_sentences_def
  by (rule changed_loop_chained[OF get_opcodes_chained]) simp

subsection \<open>Identical sequences: one equal block\<close>

definition idxs_of :: "'a b2j \<Rightarrow> 'a \<Rightarrow> nat list" where
  "idxs_of b2j x = (case b2j x of None \<Rightarrow> [] | Some idxs \<Rightarrow> idxs)"

definition popular :: "'a list \<Rightarrow> 'a \<Rightarrow> bool" where
  "popular b x = (length b \<ge> 200
     \<and> length (filter (\<lambda>j. b ! j = x) [0..<length b]) > length b div 100 + 1)"

lemma idxs_of_setdefault_append:
  "idxs_of (setdefault_append (n, y) m) x = idxs_of m x @ (if x = y then [n] else [])"
  by (simp add: idxs_of_def setdefault_append_def)

lemma idxs_of_build:
  "idxs_of (fold setdefault_append (enumerate n xs) m) x
     = idxs_of m x @ filter (\<lambda>j. xs ! (j - n) = x) [n..<n + length xs]"
proof (induction xs arbitrary: n m)
  case Nil
  then show ?case by simp
next
  case (Cons y ys)
  have nth: "(y # ys) ! (j - n) = ys ! (j - Suc n)" if "Suc n \<le> j" for j
  proof -
    have "j - n = Suc (j - Suc n)" using that by arith
    then show ?thesis by simp
  qed
  have e: "[n..<n + length (y # ys)] = n # [Suc n..<Suc n + length ys]"
    by (simp add: upt_conv_Cons del: upt_Suc)
  have "filter (\<lambda>j. (y # ys) ! (j - n) = x) [Suc n..<Suc n + length ys]
        = filter (\<lambda>j. ys ! (j - Suc n) = x) [Suc n..<Suc n + length ys]"
  proof (rule filter_cong[OF refl])
    fix j assume "j \<in> set [Suc n..<Suc n + length ys]"
    then have "Suc n \<le> j" by (simp del: upt_Suc)
    then show "((y # ys) ! (j - n) = x) = (ys ! (j - Suc n) = x)" by (simp only: nth)
  qed
  then have "filter (\<lambda>j. (y # ys) ! (j - n) = x) [n..<n + length (y # ys)]
        = (if x = y then [n] else []) @ filter (\<lambda>j. ys ! (j - Suc n) = x) [Suc n..<Suc n + length ys]"
    unfolding e by (auto simp del: upt_Suc)
  then show ?case
    using Cons.IH[of "Suc n" "setdefault_append (n, y) m"]
    by (simp add: idxs_of_setdefault_append del: upt_Suc)
qed

lemma idxs_of_chain_b:
  "idxs_of (chain_b b) x = (if popular b x then [] else filter (\<lambda>j. b ! j = x) [0..<length b])"
proof -
  have build: "idxs_of (fold setdefault_append (enumerate 0 b) Map.empty) x
        = filter (\<lambda>j. b ! j = x) [0..<length b]"
    using idxs_of_build[of 0 b Map.empty x] by (simp add: idxs_of_def)
  show ?thesis
  proof (cases "length b \<ge> 200")
    case False
    then show ?thesis using build by (simp add: chain_b_def popular_def)
  next
    case True
    then show ?thesis using build
      by (auto simp: chain_b_def popular_def idxs_of_def Let_def split: option.splits)
  qed
qed

definition good :: "'a list \<Rightarrow> nat \<Rightarrow> bool" where
  "good b p = (\<not> popular b (b ! p))"

fun runlen :: "'a list \<Rightarrow> nat \<Rightarrow> nat \<Rightarrow> nat" where
  "runlen b lo 0 = (if good b 0 then 1 else 0)"
| "runlen b lo (Suc p) =
     (if good b (Suc p) then 1 + (if lo < Suc p then runlen b lo p else 0) else 0)"

lemma runlen_unfold:
  "runlen b lo p = (if good b p then 1 + (if lo < p then runlen b lo (p - 1) else 0) else 0)"
  by (cases p) auto

definition get0 :: "(nat \<rightharpoonup> nat) \<Rightarrow> nat \<Rightarrow> nat" where
  "get0 m p = (case m p of None \<Rightarrow> 0 | Some k \<Rightarrow> k)"

definition row_inv :: "'a list \<Rightarrow> nat \<Rightarrow> nat \<Rightarrow> nat \<Rightarrow> (nat \<rightharpoonup> nat) \<Rightarrow> bool" where
  "row_inv b lo hi i j2len =
     ((\<forall>j k. j2len j = Some k \<longrightarrow>
          lo \<le> j \<and> j < hi \<and> k \<le> runlen b lo j \<and> lo < i \<and> k \<le> runlen b lo (i - 1))
      \<and> (lo < i \<longrightarrow> get0 j2len (i - 1) = runlen b lo (i - 1)))"

definition diag_inv :: "'a list \<Rightarrow> nat \<Rightarrow> nat \<Rightarrow> match \<Rightarrow> bool" where
  "diag_inv b lo i best =
     (case best of (bi, bj, bs) \<Rightarrow> bi = bj \<and> (\<forall>p. lo \<le> p \<and> p < i \<longrightarrow> runlen b lo p \<le> bs))"

definition inner_inv ::
  "'a list \<Rightarrow> nat \<Rightarrow> nat \<Rightarrow> nat \<Rightarrow> nat list \<Rightarrow> (nat \<rightharpoonup> nat) \<times> match \<Rightarrow> bool" where
  "inner_inv b lo hi i js st =
     (case st of (newj2len, bi, bj, bs) \<Rightarrow>
        (\<forall>j k. newj2len j = Some k \<longrightarrow>
           lo \<le> j \<and> j < hi \<and> k \<le> runlen b lo j \<and> k \<le> runlen b lo i)
        \<and> bi = bj
        \<and> (\<forall>p. lo \<le> p \<and> p < i \<longrightarrow> runlen b lo p \<le> bs)
        \<and> (i \<in> set js \<or> (newj2len i = Some (runlen b lo i) \<and> runlen b lo i \<le> bs)))"

lemma j2lenget_row:
  assumes row: "row_inv b lo hi i j2len" and j: "lo \<le> j"
  shows "j2lenget j2len j \<le> (if lo < j then runlen b lo (j - 1) else 0)"
    and "j2lenget j2len j \<le> (if lo < i then runlen b lo (i - 1) else 0)"
    and "j = i \<Longrightarrow> j2lenget j2len j = (if lo < i then runlen b lo (i - 1) else 0)"
proof -
  show "j2lenget j2len j \<le> (if lo < j then runlen b lo (j - 1) else 0)"
    using row j
    by (cases j; cases "j2len (j - 1)") (fastforce simp: j2lenget_def row_inv_def)+
  show "j2lenget j2len j \<le> (if lo < i then runlen b lo (i - 1) else 0)"
    using row j
    by (cases j; cases "j2len (j - 1)") (fastforce simp: j2lenget_def row_inv_def)+
  show "j2lenget j2len j = (if lo < i then runlen b lo (i - 1) else 0)" if "j = i"
  proof (cases "lo < i")
    case True
    then obtain i' where "i = Suc i'" by (cases i) auto
    then show ?thesis using row True that
      by (simp add: j2lenget_def row_inv_def get0_def)
  next
    case False
    then show ?thesis using row j that
      by (cases j; cases "j2len (j - 1)") (fastforce simp: j2lenget_def row_inv_def)+
  qed
qed

lemma flm_inner_diag:
  assumes row: "row_inv b lo hi i j2len"
    and i: "lo \<le> i" "i < hi"
    and gi: "good b i"
    and js: "sorted_wrt (<) js" "\<forall>j\<in>set js. b ! j = b ! i"
    and st: "inner_inv b lo hi i js st"
  shows "inner_inv b lo hi i [] (flm_inner i lo hi j2len js st)"
  using js st
proof (induction js arbitrary: st)
  case Nil
  then show ?case by simp
next
  case (Cons j js)
  obtain newj2len bi bj bs where st: "st = (newj2len, bi, bj, bs)"
    by (metis prod_cases4)
  have n1: "\<forall>j k. newj2len j = Some k \<longrightarrow>
           lo \<le> j \<and> j < hi \<and> k \<le> runlen b lo j \<and> k \<le> runlen b lo i"
    and dg: "bi = bj" and below: "\<forall>p. lo \<le> p \<and> p < i \<longrightarrow> runlen b lo p \<le> bs"
    and flag: "i \<in> set (j # js) \<or> (newj2len i = Some (runlen b lo i) \<and> runlen b lo i \<le> bs)"
    using Cons.prems(3) by (auto simp: inner_inv_def st)
  have sorted': "sorted_wrt (<) js" and later: "\<forall>j'\<in>set js. j < j'"
    using Cons.prems(1) by auto
  have same': "\<forall>j\<in>set js. b ! j = b ! i" and bj: "b ! j = b ! i"
    using Cons.prems(2) by auto
  show ?case
  proof (cases "j < lo")
    case True
    then have "i \<noteq> j" using i by auto
    then have "inner_inv b lo hi i js st"
      using n1 dg below flag by (auto simp: inner_inv_def st)
    from Cons.IH[OF sorted' same' this] True show ?thesis by (simp add: st)
  next
    case lo: False
    show ?thesis
    proof (cases "j \<ge> hi")
      case True
      then have "i \<notin> set (j # js)" using i later by auto
      then have "inner_inv b lo hi i [] st"
        using n1 dg below flag by (auto simp: inner_inv_def st)
      then show ?thesis using lo True by (simp add: st)
    next
      case hi: False
      define k where "k = j2lenget j2len j + 1"
      define st' where "st' = (newj2len(j \<mapsto> k),
             if k > bs then (i + 1 - k, j + 1 - k, k) else (bi, bj, bs))"
      have step: "flm_inner i lo hi j2len (j # js) st = flm_inner i lo hi j2len js st'"
        using lo hi by (simp add: st st'_def k_def Let_def)
      have loj: "lo \<le> j" using lo by simp
      have gj: "good b j" using gi bj by (simp add: good_def)
      have rj: "runlen b lo j = 1 + (if lo < j then runlen b lo (j - 1) else 0)"
        using gj by (subst runlen_unfold) simp
      have ri: "runlen b lo i = 1 + (if lo < i then runlen b lo (i - 1) else 0)"
        using gi by (subst runlen_unfold) simp
      have kj: "k \<le> runlen b lo j"
        using j2lenget_row(1)[OF row loj] rj by (simp add: k_def)
      have ki: "k \<le> runlen b lo i"
        using j2lenget_row(2)[OF row loj] ri by (simp add: k_def)
      have keq: "k = runlen b lo i" if "j = i"
        using j2lenget_row(3)[OF row loj that] ri by (simp add: k_def)
      have upd: "j = i" if "k > bs"
      proof (rule ccontr)
        assume ne: "j \<noteq> i"
        show False
        proof (cases "j < i")
          case True
          then have "runlen b lo j \<le> bs" using below loj by simp
          then show False using kj that by simp
        next
          case False
          then have "i < j" using ne by simp
          then have "i \<notin> set (j # js)" using later by auto
          then have "runlen b lo i \<le> bs" using flag by simp
          then show False using ki that by simp
        qed
      qed
      have "inner_inv b lo hi i js st'"
      proof (cases "k > bs")
        case True
        then have ji: "j = i" by (rule upd)
        have "\<forall>p. lo \<le> p \<and> p < i \<longrightarrow> runlen b lo p \<le> k"
          using below True by (meson le_trans less_imp_le_nat)
        then show ?thesis
          using True n1 kj ki keq[OF ji] ji loj hi
          by (auto simp: inner_inv_def st'_def)
      next
        case False
        have fl: "i \<in> set js \<or> ((newj2len(j \<mapsto> k)) i = Some (runlen b lo i) \<and> runlen b lo i \<le> bs)"
        proof (cases "j = i")
          case True
          then show ?thesis using keq False by simp
        next
          case ne: False
          then show ?thesis using flag by auto
        qed
        have "\<forall>j' k'. (newj2len(j \<mapsto> k)) j' = Some k' \<longrightarrow>
           lo \<le> j' \<and> j' < hi \<and> k' \<le> runlen b lo j' \<and> k' \<le> runlen b lo i"
          using n1 kj ki loj hi by auto
        then show ?thesis
          using False dg below fl by (simp add: inner_inv_def st'_def)
      qed
      from Cons.IH[OF sorted' same' this] show ?thesis by (simp only: step)
    qed
  qed
qed

lemma flm_row_diag:
  assumes row: "row_inv b lo hi i j2len" and dg: "diag_inv b lo i best"
    and i: "lo \<le> i" "i < hi" "hi \<le> length b"
  defines "st' \<equiv> flm_inner i lo hi j2len
              (case chain_b b (b ! i) of None \<Rightarrow> [] | Some idxs \<Rightarrow> idxs) (Map.empty, best)"
  shows "row_inv b lo hi (Suc i) (fst st') \<and> diag_inv b lo (Suc i) (snd st')"
proof -
  obtain bi bj bs where best: "best = (bi, bj, bs)" by (metis prod_cases3)
  have idxs: "(case chain_b b (b ! i) of None \<Rightarrow> [] | Some idxs \<Rightarrow> idxs)
              = (if good b i then filter (\<lambda>j. b ! j = b ! i) [0..<length b] else [])"
    using idxs_of_chain_b[of b "b ! i"] by (simp add: idxs_of_def good_def)
  show ?thesis
  proof (cases "good b i")
    case False
    then have "st' = (Map.empty, best)" by (simp add: st'_def idxs)
    moreover have "runlen b lo i = 0" using False by (subst runlen_unfold) simp
    moreover have "\<forall>p. lo \<le> p \<and> p < Suc i \<longrightarrow> runlen b lo p \<le> bs"
      using dg calculation(2) by (auto simp: diag_inv_def best less_Suc_eq)
    ultimately show ?thesis
      using dg by (simp add: row_inv_def diag_inv_def get0_def best)
  next
    case True
    let ?js = "filter (\<lambda>j. b ! j = b ! i) [0..<length b]"
    have js1: "sorted_wrt (<) ?js" by (rule sorted_wrt_filter) simp
    have js2: "\<forall>j\<in>set ?js. b ! j = b ! i" by simp
    have "i \<in> set ?js" using i by simp
    then have init: "inner_inv b lo hi i ?js (Map.empty, best)"
      using dg by (simp add: inner_inv_def diag_inv_def best)
    have st: "st' = flm_inner i lo hi j2len ?js (Map.empty, best)"
      using True by (simp add: st'_def idxs)
    obtain n' bi' bj' bs' where r: "st' = (n', bi', bj', bs')" by (metis prod_cases4)
    have fin: "inner_inv b lo hi i [] (n', bi', bj', bs')"
      using flm_inner_diag[OF row i(1,2) True js1 js2 init] st r by simp
    then have e: "\<forall>j k. n' j = Some k \<longrightarrow>
           lo \<le> j \<and> j < hi \<and> k \<le> runlen b lo j \<and> k \<le> runlen b lo i"
      and d: "bi' = bj'" and bl: "\<forall>p. lo \<le> p \<and> p < i \<longrightarrow> runlen b lo p \<le> bs'"
      and di: "n' i = Some (runlen b lo i)" "runlen b lo i \<le> bs'"
      by (auto simp: inner_inv_def)
    have "lo < Suc i" using i(1) by simp
    then have "row_inv b lo hi (Suc i) n'"
      using e di(1) by (auto simp: row_inv_def get0_def)
    moreover have "\<forall>p. lo \<le> p \<and> p < Suc i \<longrightarrow> runlen b lo p \<le> bs'"
      using bl di(2) by (auto simp: less_Suc_eq)
    ultimately show ?thesis using d by (simp add: r diag_inv_def)
  qed
qed

lemma flm_rows_diag:
  assumes "row_inv b lo hi i (fst st)" "diag_inv b lo i (snd st)" "lo \<le> i" "hi \<le> length b"
  shows "diag_inv b lo hi (snd (flm_rows b (chain_b b) lo hi [i..<hi] st))"
  using assms(1,2,3)
proof (induction "hi - i" arbitrary: i st)
  case 0
  then have "hi \<le> i" by simp
  moreover from this have "diag_inv b lo hi (snd st)"
    using "0.prems"(2) by (cases "snd st") (auto simp: diag_inv_def)
  ultimately show ?case by simp
next
  case (Suc n)
  then have lt: "i < hi" by simp
  obtain j2len best where st: "st = (j2len, best)" by (cases st) auto
  let ?st' = "flm_inner i lo hi j2len
          (case chain_b b (b ! i) of None \<Rightarrow> [] | Some idxs \<Rightarrow> idxs) (Map.empty, best)"
  have step: "row_inv b lo hi (Suc i) (fst ?st') \<and> diag_inv b lo (Suc i) (snd ?st')"
    using flm_row_diag[of b lo hi i j2len best] Suc.prems lt assms(4) by (simp add: st)
  have "n = hi - Suc i" using Suc.hyps(2) by simp
  from Suc.hyps(1)[OF this, of ?st'] step Suc.prems(3)
  have "diag_inv b lo hi (snd (flm_rows b (chain_b b) lo hi [Suc i..<hi] ?st'))"
    by simp
  then show ?case using lt by (simp add: upt_conv_Cons st)
qed

lemma extend_left_same:
  "lo \<le> d \<Longrightarrow> extend_left a a lo lo (d, d, s) = (lo, lo, s + (d - lo))"
proof (induction "d - lo" arbitrary: d s)
  case 0
  then show ?case by (subst extend_left.simps) simp
next
  case (Suc n)
  then have "lo < d" "n = (d - 1) - lo" "lo \<le> d - 1" by auto
  from Suc.hyps(1)[OF this(2,3), of "s + 1"] this(1) show ?case
    by (subst extend_left.simps) simp
qed

lemma extend_right_same:
  "lo + s \<le> hi \<Longrightarrow> extend_right a a hi hi (lo, lo, s) = (lo, lo, hi - lo)"
proof (induction "hi - (lo + s)" arbitrary: s)
  case 0
  then show ?case by (subst extend_right.simps) simp
next
  case (Suc n)
  then have "lo + s < hi" "n = hi - (lo + (s + 1))" "lo + (s + 1) \<le> hi" by auto
  from Suc.hyps(1)[OF this(2,3)] this(1) show ?case
    by (subst extend_right.simps) simp
qed

lemma find_longest_match_same:
  assumes "lo \<le> hi" "hi \<le> length a"
  shows "find_longest_match a a (chain_b a) lo hi lo hi = (lo, lo, hi - lo)"
proof -
  let ?best = "snd (flm_rows a (chain_b a) lo hi [lo..<hi] (Map.empty, (lo, lo, 0)))"
  obtain bi bj bs where b: "?best = (bi, bj, bs)" by (metis prod_cases3)
  have "diag_inv a lo hi ?best"
    by (rule flm_rows_diag) (simp_all add: row_inv_def diag_inv_def assms)
  then have d: "bi = bj" by (simp add: b diag_inv_def)
  have "best_ok lo hi lo hi ?best"
    by (rule flm_rows_ok) (simp_all add: j2len_ok_empty best_ok_def)
  then have w: "lo \<le> bi" "bi + bs \<le> hi"
    using assms(1) by (auto simp: b best_ok_def)
  have "extend_left a a lo lo ?best = (lo, lo, bs + (bi - lo))"
    using extend_left_same[OF w(1)] by (simp add: b d)
  moreover have "extend_right a a hi hi (lo, lo, bs + (bi - lo)) = (lo, lo, hi - lo)"
    by (rule extend_right_same) (use w in simp)
  ultimately show ?thesis by (simp add: find_longest_match_def)
qed

lemma get_matching_blocks_same:
  "get_matching_blocks a a =
     (if a = [] then [(0, 0, 0)] else [(0, 0, length a), (length a, length a, 0)])"
proof -
  have flm: "find_longest_match a a (chain_b a) 0 (length a) 0 (length a) = (0, 0, length a)"
    using find_longest_match_same[of 0 "length a" a] by simp
  have "mb_loop a a (chain_b a) [(0, length a, 0, length a)] []
        = (if a = [] then [] else [(0, 0, length a)])"
    by (simp add: mb_loop.simps flm)
  then show ?thesis by (simp add: get_matching_blocks_def Let_def)
qed

lemma get_opcodes_same:
  "get_opcodes a a = (if a = [] then [] else [(''equal'', 0, length a, 0, length a)])"
  by (simp add: get_opcodes_def get_matching_blocks_same)

lemma changed_sentences_same: "changed_sentences a a = []"
  by (simp add: changed_sentences_def get_opcodes_same)


section \<open>The change detector\<close>

text \<open>
  C1: for every pair of sentence sequences the change detector returns exactly the
  polished sentences at the positions that no \<open>equal\<close> opcode span covers (replace,
  insert and delete spans all count as changed), in the order of the polished
  sequence and with repeated sentences kept position by position; two sequences that
  are identical element for element give the empty change set.
\<close>

theorem changed_sentences_outside_equal:
  "changed_sentences a b =
     map (\<lambda>p. b ! p) (filter (\<lambda>p. \<not> in_equal_span (get_opcodes a b) p) [0..<length b])
   \<and> changed_sentences a a = []"
  using changed_sentences_positions[of a b] changed_sentences_same[of a] by simp

theorem changed_sentences_outside_equal_witness:
  "changed_sentences [''A.'', ''B.'', ''B.''] [''A.'', ''C.'', ''C.'', ''B.''] = [''C.'', ''C.'']
   \<and> get_opcodes [''A.'', ''B.'', ''B.''] [''A.'', ''C.'', ''C.'', ''B.'']
       = [(''equal'', 0, 1, 0, 1), (''insert'', 1, 1, 1, 3), (''equal'', 1, 2, 3, 4),
          (''delete'', 2, 3, 4, 4)]
   \<and> changed_sentences [''A.'', ''B.'', ''B.''] [''A.'', ''B.'', ''B.''] = []"
proof -
  have e: "get_opcodes [''A.'', ''B.'', ''B.''] [''A.'', ''C.'', ''C.'', ''B.'']
       = [(''equal'', 0, 1, 0, 1), (''insert'', 1, 1, 1, 3), (''equal'', 1, 2, 3, 4),
          (''delete'', 2, 3, 4, 4)]"
    by code_simp
  show ?thesis
    using changed_sentences_outside_equal[of "[''A.'', ''B.'', ''B.'']" "[''A.'', ''C.'', ''C.'', ''B.'']"]
      changed_sentences_outside_equal[of "[''A.'', ''B.'', ''B.'']" "[''A.'', ''B.'', ''B.'']"]
    by (simp add: e in_equal_span_def covers_def upt_rec)
qed

section \<open>The opcodes partition the polished sequence\<close>

text \<open>
  C9: for every pair of sentence sequences the polished-side spans of the opcodes,
  equal and non-equal together, read in order, are exactly the positions
  \<open>0, ..., length b - 1\<close> of the polished sequence, and every position is covered by
  exactly one opcode: each polished sentence is either changed or unchanged, never
  both and never neither.
\<close>

theorem get_opcodes_partition:
  "concat (map b_span (get_opcodes a b)) = [0..<length b]
   \<and> (\<forall>p<length b. length (filter (covers p) (get_opcodes a b)) = 1)"
  using b_chained_spans[OF get_opcodes_chained[of b a]]
    b_chained_cover_count[OF get_opcodes_chained[of b a]]
  by simp

theorem get_opcodes_partition_witness:
  "get_opcodes [''A.'', ''B.''] [''A.'', ''C.'', ''D.'']
     = [(''equal'', 0, 1, 0, 1), (''replace'', 1, 2, 1, 3)]
   \<and> concat (map b_span (get_opcodes [''A.'', ''B.''] [''A.'', ''C.'', ''D.''])) = [0, 1, 2]
   \<and> length (filter (covers 1) (get_opcodes [''A.'', ''B.''] [''A.'', ''C.'', ''D.''])) = 1"
proof -
  have e: "get_opcodes [''A.'', ''B.''] [''A.'', ''C.'', ''D.'']
     = [(''equal'', 0, 1, 0, 1), (''replace'', 1, 2, 1, 3)]"
    by code_simp
  have "concat (map b_span (get_opcodes [''A.'', ''B.''] [''A.'', ''C.'', ''D.''])) = [0, 1, 2]
   \<and> length (filter (covers 1) (get_opcodes [''A.'', ''B.''] [''A.'', ''C.'', ''D.''])) = 1"
    using get_opcodes_partition[of "[''A.'', ''B.'']" "[''A.'', ''C.'', ''D.'']"]
    by (simp add: upt_rec)
  then show ?thesis using e by blast
qed

section \<open>The application\<close>

text \<open>
  \<open>highlight_sentences\<close> (app.py, lines 42-59). \<open>highlight_one\<close> is the body of its loop:
  \<open>categories.get(sent.strip())\<close>, the test \<open>if category:\<close> (false for a missing key and
  for the empty string), \<open>highlights.get(category, "")\<close> and the span;
  \<open>highlight_output\<close> is the list \<open>output\<close> and the result is \<open>" ".join(output)\<close>.
\<close>

definition highlights :: "string \<rightharpoonup> string" where
  "highlights = map_of
     [(''grammar'', ''background-color:#ffcccc;''),
      (''spelling'', ''background-color:#cce5ff;''),
      (''tone'', ''background-color:#fff3cd;''),
      (''formatting'', ''background-color:#d5f5e3;''),
      (''other'', ''background-color:#e8d4f8;'')]"

definition span :: "string \<Rightarrow> string \<Rightarrow> string" where
  "span style sent =
     ''<span style='' @ [CHR 0x27] @ style @ [CHR 0x27] @ ''>'' @ sent @ ''</span>''"

definition highlight_one :: "(string \<rightharpoonup> string) \<Rightarrow> string \<Rightarrow> string" where
  "highlight_one categories sent =
     (case categories (strip sent) of
        None \<Rightarrow> sent
      | Some category \<Rightarrow>
          if category \<noteq> []
          then span (case highlights category of None \<Rightarrow> [] | Some style \<Rightarrow> style) sent
          else sent)"

definition highlight_output :: "string list \<Rightarrow> (string \<rightharpoonup> string) \<Rightarrow> string list" where
  "highlight_output polished_sentences categories =
     map (highlight_one categories) polished_sentences"

definition highlight_sentences :: "string list \<Rightarrow> (string \<rightharpoonup> string) \<Rightarrow> string" where
  "highlight_sentences polished_sentences categories =
     join '' '' (highlight_output polished_sentences categories)"

text \<open>
  The two prompts (app.py, lines 87-97 and 113-120), character for character: \<open>nl\<close> is
  the line feed and \<open>dq\<close> the double quote.
\<close>

definition nl :: string where
  "nl = [CHR 0x0A]"

definition dq :: string where
  "dq = [CHR 0x22]"

definition polish_prompt :: "string \<Rightarrow> string \<Rightarrow> string" where
  "polish_prompt style_choice user_input =
     nl @ nl @ ''Instructions:'' @ nl
     @ ''1. Rewrite the draft in the style the user selected ('' @ style_choice @ '').'' @ nl
     @ ''2. Only change or polish sentences from the original draft that have grammar, spelling, tone, formatting, or other issues.'' @ nl
     @ ''3. Wrap the entire original sentence that was changed with:'' @ nl
     @ ''   <grammar>...</grammar>, <spelling>...</spelling>, <tone>...</tone>, <formatting>...</formatting>, or <other>...</other> as appropriate.'' @ nl
     @ ''4. Do NOT add new sentences, repeat sentences, extra commentary, or explanations.'' @ nl
     @ ''Draft:'' @ nl
     @ user_input @ nl"

definition classify_prompt :: "string \<Rightarrow> string" where
  "classify_prompt sent =
     nl @ ''Classify the type of fix made to this sentence compared to the original draft.'' @ nl
     @ nl
     @ ''Sentence: '' @ dq @ sent @ dq @ nl
     @ nl
     @ ''Categories: grammar, spelling, tone, formatting, other'' @ nl
     @ ''Return only one category name.'' @ nl"

text \<open>
  The category validation (app.py, lines 121-124): \<open>validate_category\<close> takes what
  \<open>gemini_generate\<close> returned, lower-cases it and replaces it by \<open>other\<close> when it is not
  in the list.
\<close>

definition valid_categories :: "string list" where
  "valid_categories = [''grammar'', ''spelling'', ''tone'', ''formatting'', ''other'']"

definition validate_category :: "string \<Rightarrow> string" where
  "validate_category response =
     (let category = lower response
      in if category \<notin> set valid_categories then ''other'' else category)"

text \<open>
  Effects. A run of the script is the list of the calls it makes to Streamlit and to
  the Gemini client, in order, and how it ends: \<open>Finished\<close> (the script ran to its end),
  \<open>Stopped\<close> (\<open>st.stop()\<close>) or \<open>Raised\<close> (an exception of the LLM call, which nothing
  catches). \<open>St_error\<close> and \<open>St_warning\<close> carry the message (the warning sign that
  starts the error message is outside the character range and left out),
  \<open>Generate_content\<close> the prompt and \<open>max_output_tokens\<close>, \<open>St_markdown\<close> the HTML of the
  polished-output panel; \<open>St_legend\<close> stands for the two \<open>st.markdown\<close> calls of the
  legend, whose texts are constants.

  The LLM is a parameter: \<open>model n prompt max_output_tokens\<close> is the \<open>response.text\<close> of
  the call number \<open>n\<close> of the run (from 0), or \<open>None\<close> when that call raises.
  \<open>gemini_generate\<close> (app.py, lines 70-75) records the call and strips the text.
\<close>

datatype event =
    St_error string
  | St_stop
  | Genai_configure string
  | Generative_model string
  | St_set_page_config
  | St_title
  | St_selectbox
  | St_columns
  | St_text_area
  | St_button
  | St_warning string
  | St_spinner
  | Generate_content string nat
  | St_markdown string
  | St_legend

datatype status = Finished | Stopped | Raised

type_synonym llm = "nat \<Rightarrow> string \<Rightarrow> nat \<Rightarrow> string option"

fun is_generate :: "event \<Rightarrow> bool" where
  "is_generate (Generate_content prompt max_output_tokens) = True"
| "is_generate _ = False"

definition llm_calls :: "event list \<Rightarrow> nat" where
  "llm_calls trace = length (filter is_generate trace)"

definition gemini_generate ::
  "llm \<Rightarrow> event list \<Rightarrow> string \<Rightarrow> nat \<Rightarrow> event list \<times> string option" where
  "gemini_generate model trace prompt max_output_tokens =
     (trace @ [Generate_content prompt max_output_tokens],
      map_option strip (model (llm_calls trace) prompt max_output_tokens))"

fun classify_loop ::
  "llm \<Rightarrow> string list \<Rightarrow> event list \<times> (string \<rightharpoonup> string)
     \<Rightarrow> event list \<times> (string \<rightharpoonup> string) option" where
  "classify_loop model [] (trace, categories) = (trace, Some categories)"
| "classify_loop model (sent # rest) (trace, categories) =
     (case gemini_generate model trace (classify_prompt sent) 5 of
        (trace', None) \<Rightarrow> (trace', None)
      | (trace', Some response) \<Rightarrow>
          classify_loop model rest
            (trace', categories(strip sent \<mapsto> validate_category response)))"

text \<open>
  The panel (app.py, lines 133-144), with \<open>height = 400\<close>.
\<close>

definition box_html :: "string \<Rightarrow> string" where
  "box_html polished_html =
     nl @ ''            <div style='' @ dq @ nl
     @ ''                padding:15px;'' @ nl
     @ ''                border-radius:5px;'' @ nl
     @ ''                min-height:400px;'' @ nl
     @ ''                white-space: pre-wrap;'' @ nl
     @ ''                font-family: '' @ [CHR 0x27] @ ''Courier New'' @ [CHR 0x27] @ '', monospace;'' @ nl
     @ ''                color:black;'' @ nl
     @ ''            '' @ dq @ ''>'' @ nl
     @ ''                '' @ polished_html @ nl
     @ ''            </div>'' @ nl
     @ ''            ''"

text \<open>
  The inputs of a run: the environment variable \<open>GEMINI_API_KEY\<close> (\<open>None\<close> when it is
  not set), the value of the select box, the text of the text area and whether the
  button \<open>Polish\<close> was pressed. \<open>app\<close> is the script from top to bottom; \<open>polish_workflow\<close>
  is the \<open>else\<close> branch of lines 83-159.
\<close>

record inputs =
  api_key :: "string option"
  style_choice :: string
  user_input :: string
  polish_clicked :: bool

definition polish_workflow :: "llm \<Rightarrow> inputs \<Rightarrow> event list \<Rightarrow> event list \<times> status" where
  "polish_workflow model inp trace =
     (case gemini_generate model (trace @ [St_spinner])
             (polish_prompt (style_choice inp) (user_input inp)) 600 of
        (trace1, None) \<Rightarrow> (trace1, Raised)
      | (trace1, Some polished_text) \<Rightarrow>
          (let orig_sentences = split_sentences (user_input inp);
               polished_sentences = split_sentences polished_text;
               changed = changed_sentences orig_sentences polished_sentences
           in case classify_loop model changed (trace1, Map.empty) of
                (trace2, None) \<Rightarrow> (trace2, Raised)
              | (trace2, Some categories) \<Rightarrow>
                  (trace2 @ [St_markdown (box_html
                               (highlight_sentences polished_sentences categories)),
                             St_legend],
                   Finished)))"

definition key_error :: string where
  "key_error = ''Gemini API key not found. Please set GEMINI_API_KEY as an environment variable.''"

definition page_events :: "string \<Rightarrow> event list" where
  "page_events key =
     [Genai_configure key, Generative_model ''gemini-1.5-flash'',
      St_set_page_config, St_title, St_selectbox, St_columns, St_text_area, St_button]"

definition app :: "llm \<Rightarrow> inputs \<Rightarrow> event list \<times> status" where
  "app model inp =
     (case api_key inp of
        None \<Rightarrow> ([St_error key_error, St_stop], Stopped)
      | Some key \<Rightarrow>
          if key = []
          then ([St_error key_error, St_stop], Stopped)
          else (let trace = page_events key
                in if polish_clicked inp
                   then (if strip (user_input inp) = []
                         then (trace @ [St_warning ''Please enter some text first.''], Finished)
                         else polish_workflow model inp trace)
                   else (trace, Finished)))"

section \<open>Classifier, highlighter and the polish workflow\<close>

text \<open>
  \<open>answering f\<close> is an LLM that answers every request. \<open>spec_colour\<close> is the colour
  table of the specification and \<open>spec_span\<close> the span it describes.
\<close>

definition answering :: "(nat \<Rightarrow> string \<Rightarrow> nat \<Rightarrow> string) \<Rightarrow> llm" where
  "answering f n prompt max_output_tokens = Some (f n prompt max_output_tokens)"

definition spec_colour :: "string \<Rightarrow> string" where
  "spec_colour category =
     (if category = ''grammar'' then ''#ffcccc''
      else if category = ''spelling'' then ''#cce5ff''
      else if category = ''tone'' then ''#fff3cd''
      else if category = ''formatting'' then ''#d5f5e3''
      else ''#e8d4f8'')"

definition spec_span :: "string \<Rightarrow> string \<Rightarrow> string" where
  "spec_span category sent =
     ''<span style='' @ [CHR 0x27] @ ''background-color:'' @ spec_colour category @ '';''
     @ [CHR 0x27] @ ''>'' @ sent @ ''</span>''"

lemma validate_category_valid: "validate_category response \<in> set valid_categories"
  by (simp add: validate_category_def Let_def valid_categories_def)

lemma highlight_one_valid:
  assumes "category \<in> set valid_categories" "categories (strip sent) = Some category"
  shows "highlight_one categories sent = spec_span category sent"
  using assms
  by (auto simp: highlight_one_def valid_categories_def highlights_def span_def
        spec_span_def spec_colour_def)

lemma highlight_one_unmapped:
  "categories (strip sent) = None \<Longrightarrow> highlight_one categories sent = sent"
  by (simp add: highlight_one_def)

lemma llm_calls_generate [simp]:
  "llm_calls (trace @ [Generate_content prompt n]) = Suc (llm_calls trace)"
  by (simp add: llm_calls_def)

lemma classify_loop_valid:
  "classify_loop model changed (trace, categories) = (trace', Some categories') \<Longrightarrow>
   ran categories \<subseteq> set valid_categories \<Longrightarrow> ran categories' \<subseteq> set valid_categories"
proof (induction changed arbitrary: trace categories)
  case Nil
  then show ?case by simp
next
  case (Cons sent rest)
  show ?case
  proof (cases "model (llm_calls trace) (classify_prompt sent) 5")
    case None
    then show ?thesis using Cons.prems(1) by (simp add: gemini_generate_def)
  next
    case (Some answer)
    let ?cats = "categories(strip sent \<mapsto> validate_category (strip answer))"
    have step: "classify_loop model rest
                  (trace @ [Generate_content (classify_prompt sent) 5], ?cats)
                = (trace', Some categories')"
      using Cons.prems(1) Some by (simp add: gemini_generate_def)
    have "ran ?cats \<subseteq> set valid_categories"
      using Cons.prems(2) validate_category_valid[of "strip answer"]
      by (auto simp: ran_def split: if_splits)
    from Cons.IH[OF step this] show ?thesis .
  qed
qed

fun cats_after ::
  "(nat \<Rightarrow> string \<Rightarrow> nat \<Rightarrow> string) \<Rightarrow> nat \<Rightarrow> string list \<Rightarrow> (string \<rightharpoonup> string)
     \<Rightarrow> (string \<rightharpoonup> string)" where
  "cats_after f n [] categories = categories"
| "cats_after f n (sent # rest) categories =
     cats_after f (Suc n) rest
       (categories(strip sent \<mapsto> validate_category (strip (f n (classify_prompt sent) 5))))"

lemma classify_loop_answering:
  "classify_loop (answering f) changed (trace, categories)
   = (trace @ map (\<lambda>sent. Generate_content (classify_prompt sent) 5) changed,
      Some (cats_after f (llm_calls trace) changed categories))"
  by (induction changed arbitrary: trace categories)
     (simp_all add: gemini_generate_def answering_def)

lemma cats_after_other:
  "k \<notin> strip ` set changed \<Longrightarrow> cats_after f n changed categories k = categories k"
  by (induction changed arbitrary: n categories) auto

lemma cats_after_last:
  assumes "i < length changed"
    and "\<forall>j. i < j \<and> j < length changed \<longrightarrow> strip (changed ! j) \<noteq> strip (changed ! i)"
  shows "cats_after f n changed categories (strip (changed ! i))
         = Some (validate_category (strip (f (n + i) (classify_prompt (changed ! i)) 5)))"
  using assms
proof (induction changed arbitrary: n categories i)
  case Nil
  then show ?case by simp
next
  case (Cons sent rest)
  show ?case
  proof (cases i)
    case 0
    have "\<forall>j<length rest. strip (rest ! j) \<noteq> strip sent"
    proof (intro allI impI)
      fix j assume "j < length rest"
      then show "strip (rest ! j) \<noteq> strip sent"
        using Cons.prems(2)[rule_format, of "Suc j"] 0 by simp
    qed
    then have "strip sent \<notin> strip ` set rest"
      by (auto simp: in_set_conv_nth)
    then show ?thesis using 0 by (simp add: cats_after_other)
  next
    case (Suc i')
    have 1: "i' < length rest" using Cons.prems(1) Suc by simp
    have 2: "\<forall>j. i' < j \<and> j < length rest \<longrightarrow> strip (rest ! j) \<noteq> strip (rest ! i')"
    proof (intro allI impI)
      fix j assume "i' < j \<and> j < length rest"
      then show "strip (rest ! j) \<noteq> strip (rest ! i')"
        using Cons.prems(2)[rule_format, of "Suc j"] Suc by simp
    qed
    show ?thesis using Cons.IH[OF 1 2] Suc by simp
  qed
qed

text \<open>
  \<open>changed_of f inp\<close>: the changed sentences of a run on \<open>inp\<close> whose LLM answers by \<open>f\<close>.
  \<open>demo_answers\<close> returns \<open>B. B.\<close> to the polish request and \<open>grammar\<close> afterwards.
\<close>

definition changed_of :: "(nat \<Rightarrow> string \<Rightarrow> nat \<Rightarrow> string) \<Rightarrow> inputs \<Rightarrow> string list" where
  "changed_of f inp =
     changed_sentences (split_sentences (user_input inp))
       (split_sentences (strip (f 0 (polish_prompt (style_choice inp) (user_input inp)) 600)))"

definition demo_answers :: "nat \<Rightarrow> string \<Rightarrow> nat \<Rightarrow> string" where
  "demo_answers n prompt max_output_tokens = (if n = 0 then ''B. B.'' else ''grammar'')"

definition demo_inputs :: inputs where
  "demo_inputs = \<lparr>api_key = Some ''key'', style_choice = ''Friendly'',
                   user_input = ''A.'', polish_clicked = True\<rparr>"

lemma llm_calls_page_events [simp]: "llm_calls (page_events key @ [St_spinner]) = 0"
  by (simp add: llm_calls_def page_events_def)

lemma filter_generate_page_events [simp]: "filter is_generate (page_events key) = []"
  by (simp add: page_events_def)

lemma filter_generate_classify [simp]:
  "filter is_generate (map (\<lambda>sent. Generate_content (classify_prompt sent) 5) changed)
   = map (\<lambda>sent. Generate_content (classify_prompt sent) 5) changed"
  by (induction changed) auto

lemma app_answering:
  assumes "api_key inp = Some key" "key \<noteq> []" "polish_clicked inp" "strip (user_input inp) \<noteq> []"
  shows "\<exists>html. app (answering f) inp =
     (page_events key
      @ [St_spinner, Generate_content (polish_prompt (style_choice inp) (user_input inp)) 600]
      @ map (\<lambda>sent. Generate_content (classify_prompt sent) 5) (changed_of f inp)
      @ [St_markdown html, St_legend],
      Finished)"
  using assms
  by (simp add: app_def polish_workflow_def gemini_generate_def answering_def[abs_def]
        classify_loop_answering[unfolded answering_def[abs_def]] changed_of_def Let_def)

lemma app_answering_generate:
  assumes "api_key inp = Some key" "key \<noteq> []" "polish_clicked inp" "strip (user_input inp) \<noteq> []"
  shows "filter is_generate (fst (app (answering f) inp)) =
           Generate_content (polish_prompt (style_choice inp) (user_input inp)) 600
           # map (\<lambda>sent. Generate_content (classify_prompt sent) 5) (changed_of f inp)"
proof -
  obtain html where "app (answering f) inp =
     (page_events key
      @ [St_spinner, Generate_content (polish_prompt (style_choice inp) (user_input inp)) 600]
      @ map (\<lambda>sent. Generate_content (classify_prompt sent) 5) (changed_of f inp)
      @ [St_markdown html, St_legend],
      Finished)"
    using app_answering[OF assms] by blast
  then show ?thesis by simp
qed

text \<open>
  C2: whatever text the LLM returns to a classification request, the category the
  classifier keeps is one of exactly the five values grammar, spelling, tone,
  formatting, other: the response (trimmed by \<open>gemini_generate\<close>) is lower-cased and kept
  when it is one of the five, and replaced by \<open>other\<close> otherwise, as for the empty
  response, a multi-word response or \<open>Grammar!!\<close>; and every value of the
  sentence-to-category mapping built by the classification loop is one of the five.
\<close>

theorem classifier_category_valid:
  "set valid_categories = {''grammar'', ''spelling'', ''tone'', ''formatting'', ''other''}
   \<and> validate_category (strip response_text) \<in> set valid_categories
   \<and> validate_category (strip response_text)
       = (if lower (strip response_text) \<in> set valid_categories
          then lower (strip response_text) else ''other'')
   \<and> (classify_loop model changed (trace, Map.empty) = (trace', Some categories)
        \<longrightarrow> ran categories \<subseteq> set valid_categories)"
proof -
  have 1: "set valid_categories = {''grammar'', ''spelling'', ''tone'', ''formatting'', ''other''}"
    by (simp add: valid_categories_def)
  have 2: "validate_category (strip response_text)
       = (if lower (strip response_text) \<in> set valid_categories
          then lower (strip response_text) else ''other'')"
    by (simp add: validate_category_def Let_def)
  have 3: "classify_loop model changed (trace, Map.empty) = (trace', Some categories)
        \<longrightarrow> ran categories \<subseteq> set valid_categories"
    using classify_loop_valid[of model changed trace Map.empty trace' categories] by simp
  show ?thesis using 1 2 3 validate_category_valid[of "strip response_text"] by blast
qed

theorem classifier_category_valid_witness:
  "validate_category (strip ''Grammar!!'') = ''other''
   \<and> validate_category (strip ('' Tone'' @ [CHR 0x0A])) = ''tone''
   \<and> validate_category (strip '''') = ''other''
   \<and> ran (cats_after (\<lambda>n prompt m. ''Grammar!!'') 0 [''B.''] Map.empty)
       \<subseteq> set valid_categories"
proof -
  have e: "classify_loop (answering (\<lambda>n prompt m. ''Grammar!!'')) [''B.''] ([], Map.empty)
     = ([] @ map (\<lambda>sent. Generate_content (classify_prompt sent) 5) [''B.''],
        Some (cats_after (\<lambda>n prompt m. ''Grammar!!'') 0 [''B.''] Map.empty))"
    using classify_loop_answering[of "\<lambda>n prompt m. ''Grammar!!''" "[''B.'']" "[]" Map.empty]
    by (simp add: llm_calls_def)
  have a: "validate_category (strip ''Grammar!!'') = ''other''" by code_simp
  have b: "validate_category (strip ('' Tone'' @ [CHR 0x0A])) = ''tone''" by code_simp
  have c: "validate_category (strip '''') = ''other''" by code_simp
  show ?thesis
    using classifier_category_valid[of "''Grammar!!''" "answering (\<lambda>n prompt m. ''Grammar!!'')"
        "[''B.'']" "[]" _ "cats_after (\<lambda>n prompt m. ''Grammar!!'') 0 [''B.''] Map.empty"] e a b c
    by blast
qed

text \<open>
  C3: for every sentence sequence and every sentence-to-category mapping (its values
  among the five categories), the highlighter wraps exactly the sentences whose
  trimmed text is a key of the mapping in a span with the fixed colour of that
  category (grammar \<open>#ffcccc\<close>, spelling \<open>#cce5ff\<close>, tone \<open>#fff3cd\<close>, formatting
  \<open>#d5f5e3\<close>, other \<open>#e8d4f8\<close>), leaves every other sentence as it is, joins the
  results with a single space, and produces as many pieces as there are sentences.
\<close>

theorem highlight_sentences_wraps:
  assumes "ran categories \<subseteq> set valid_categories"
  shows "length (highlight_output polished_sentences categories) = length polished_sentences
     \<and> highlight_sentences polished_sentences categories
         = join '' '' (highlight_output polished_sentences categories)
     \<and> (\<forall>i<length polished_sentences.
           highlight_output polished_sentences categories ! i
           = (case categories (strip (polished_sentences ! i)) of
                None \<Rightarrow> polished_sentences ! i
              | Some category \<Rightarrow> spec_span category (polished_sentences ! i)))
     \<and> spec_colour ''grammar'' = ''#ffcccc'' \<and> spec_colour ''spelling'' = ''#cce5ff''
     \<and> spec_colour ''tone'' = ''#fff3cd'' \<and> spec_colour ''formatting'' = ''#d5f5e3''
     \<and> spec_colour ''other'' = ''#e8d4f8''"
proof -
  have one: "highlight_one categories sent
             = (case categories (strip sent) of None \<Rightarrow> sent
                | Some category \<Rightarrow> spec_span category sent)" for sent
  proof (cases "categories (strip sent)")
    case None
    then show ?thesis by (simp add: highlight_one_unmapped)
  next
    case (Some category)
    then have "category \<in> set valid_categories" using assms by (auto simp: ran_def)
    then show ?thesis using Some by (simp add: highlight_one_valid)
  qed
  show ?thesis
    by (simp add: highlight_output_def highlight_sentences_def one spec_colour_def)
qed

theorem highlight_sentences_wraps_witness:
  "highlight_sentences [''This is a test.'', ''It has errors.'']
     (Map.empty(''It has errors.'' \<mapsto> ''grammar''))
   = ''This is a test. <span style='' @ [CHR 0x27] @ ''background-color:#ffcccc;'' @ [CHR 0x27]
     @ ''>It has errors.</span>''
   \<and> length (highlight_output [''This is a test.'', ''It has errors.'']
        (Map.empty(''It has errors.'' \<mapsto> ''grammar''))) = 2"
proof -
  have r: "ran (Map.empty(''It has errors.'' \<mapsto> ''grammar'')) \<subseteq> set valid_categories"
    by (simp add: valid_categories_def)
  have h: "highlight_output [''This is a test.'', ''It has errors.'']
        (Map.empty(''It has errors.'' \<mapsto> ''grammar''))
      = [''This is a test.'', ''<span style='' @ [CHR 0x27] @ ''background-color:#ffcccc;''
           @ [CHR 0x27] @ ''>It has errors.</span>'']"
    by code_simp
  have "highlight_sentences [''This is a test.'', ''It has errors.'']
          (Map.empty(''It has errors.'' \<mapsto> ''grammar''))
        = join '' '' (highlight_output [''This is a test.'', ''It has errors.'']
          (Map.empty(''It has errors.'' \<mapsto> ''grammar'')))"
    using highlight_sentences_wraps[OF r, of "[''This is a test.'', ''It has errors.'']"]
    by blast
  then show ?thesis by (simp add: h)
qed

text \<open>
  C6 (as the code has it): on a submit with a draft that is not blank, and an LLM that
  answers every request, the requests are the polish request followed by one
  classification request per changed sentence, occurrence by occurrence, so the
  number of LLM calls is one plus the length of \<open>changed_sentences\<close>; when the trimmed
  texts of the changed sentences are pairwise distinct this is \<open>N + 1\<close> for \<open>N\<close> the
  number of distinct changed sentences. With a repeated changed sentence there are
  more calls than \<open>N + 1\<close>: the draft \<open>A.\<close> polished to \<open>B. B.\<close> makes three calls for
  one distinct changed sentence.
\<close>

theorem llm_calls_per_occurrence:
  assumes "api_key inp = Some key" "key \<noteq> []" "polish_clicked inp"
    and "strip (user_input inp) \<noteq> []"
  shows "filter is_generate (fst (app (answering f) inp)) =
           Generate_content (polish_prompt (style_choice inp) (user_input inp)) 600
           # map (\<lambda>sent. Generate_content (classify_prompt sent) 5) (changed_of f inp)
     \<and> llm_calls (fst (app (answering f) inp)) = 1 + length (changed_of f inp)
     \<and> (distinct (map strip (changed_of f inp)) \<longrightarrow>
          llm_calls (fst (app (answering f) inp))
          = 1 + length (remdups (map strip (changed_of f inp))))"
  using app_answering_generate[OF assms, of f]
  by (auto simp: llm_calls_def distinct_remdups_id)

theorem llm_calls_per_occurrence_witness:
  "llm_calls (fst (app (answering demo_answers) demo_inputs)) = 1 + length [''B.'', ''B.'']
   \<and> changed_of demo_answers demo_inputs = [''B.'', ''B.'']"
proof -
  have c: "changed_of demo_answers demo_inputs = [''B.'', ''B.'']"
    by code_simp
  have s: "strip (user_input demo_inputs) \<noteq> []"
    by code_simp
  have "llm_calls (fst (app (answering demo_answers) demo_inputs))
        = 1 + length (changed_of demo_answers demo_inputs)"
    using llm_calls_per_occurrence[of demo_inputs "''key''" demo_answers] s
    by (simp add: demo_inputs_def)
  then show ?thesis by (simp add: c)
qed

text \<open>
  The draft \<open>A.\<close> with the polished text \<open>B. B.\<close>: the changed sentences are \<open>B.\<close> twice,
  one distinct text, and the run makes three LLM calls, not two.
\<close>

theorem llm_calls_distinct_counterexample:
  "llm_calls (fst (app (answering demo_answers) demo_inputs)) = 3
   \<and> length (remdups (map strip (changed_of demo_answers demo_inputs))) = 1
   \<and> llm_calls (fst (app (answering demo_answers) demo_inputs))
       \<noteq> length (remdups (map strip (changed_of demo_answers demo_inputs))) + 1"
proof -
  have 1: "llm_calls (fst (app (answering demo_answers) demo_inputs)) = 3"
    by code_simp
  have 2: "length (remdups (map strip (changed_of demo_answers demo_inputs))) = 1"
    by code_simp
  show ?thesis by (simp add: 1 2)
qed

text \<open>
  C7: on a submit whose input is empty (or blank), with the API key present, the run
  shows the warning and ends normally: after the page widgets the only event is the
  warning, no LLM call is issued and no polished-output panel is rendered.
\<close>

theorem empty_input_warning:
  assumes "api_key inp = Some key" "key \<noteq> []" "polish_clicked inp"
    and "strip (user_input inp) = []"
  shows "app model inp
           = (page_events key @ [St_warning ''Please enter some text first.''], Finished)
     \<and> llm_calls (fst (app model inp)) = 0
     \<and> (\<forall>html. St_markdown html \<notin> set (fst (app model inp)))"
  using assms by (auto simp: app_def llm_calls_def page_events_def)

theorem empty_input_warning_witness:
  "app (answering demo_answers)
       \<lparr>api_key = Some ''key'', style_choice = ''Friendly'', user_input = '''',
        polish_clicked = True\<rparr>
     = (page_events ''key'' @ [St_warning ''Please enter some text first.''], Finished)
   \<and> llm_calls (fst (app (answering demo_answers)
       \<lparr>api_key = Some ''key'', style_choice = ''Friendly'', user_input = '''',
        polish_clicked = True\<rparr>)) = 0"
proof -
  have "strip (user_input \<lparr>api_key = Some ''key'', style_choice = ''Friendly'',
        user_input = '''', polish_clicked = True\<rparr>) = []"
    by (simp add: strip_def)
  then show ?thesis
    using empty_input_warning[of "\<lparr>api_key = Some ''key'', style_choice = ''Friendly'',
        user_input = '''', polish_clicked = True\<rparr>" "''key''" "answering demo_answers"]
    by fastforce
qed

text \<open>
  C8: when the API key is absent from the environment the run is exactly the error
  message followed by \<open>st.stop()\<close>: no client configuration, no model, no widget and
  no LLM call.
\<close>

theorem missing_key_halts:
  assumes "api_key inp = None"
  shows "app model inp = ([St_error key_error, St_stop], Stopped)
     \<and> llm_calls (fst (app model inp)) = 0"
  using assms by (simp add: app_def llm_calls_def)

theorem missing_key_halts_witness:
  "app (answering demo_answers)
       \<lparr>api_key = None, style_choice = ''Friendly'', user_input = ''A.'',
        polish_clicked = True\<rparr>
     = ([St_error key_error, St_stop], Stopped)"
  using missing_key_halts[of "\<lparr>api_key = None, style_choice = ''Friendly'',
        user_input = ''A.'', polish_clicked = True\<rparr>" "answering demo_answers"]
  by simp

text \<open>
  C10: the classification loop issues one request per element of the changed
  sentences, repeated texts included, and each result overwrites the entry under the
  trimmed text: for the last occurrence of a trimmed text, the mapping holds the
  category returned by that occurrence's call, and every sentence with that trimmed
  text is rendered in the span of that category.
\<close>

theorem duplicate_changed_last_wins:
  "fst (classify_loop (answering f) changed (trace, Map.empty))
     = trace @ map (\<lambda>sent. Generate_content (classify_prompt sent) 5) changed
   \<and> (\<exists>categories.
         snd (classify_loop (answering f) changed (trace, Map.empty)) = Some categories
         \<and> (\<forall>i<length changed.
               (\<forall>j. i < j \<and> j < length changed \<longrightarrow> strip (changed ! j) \<noteq> strip (changed ! i))
               \<longrightarrow> categories (strip (changed ! i))
                     = Some (validate_category
                               (strip (f (llm_calls trace + i) (classify_prompt (changed ! i)) 5)))
                 \<and> (\<forall>sent. strip sent = strip (changed ! i) \<longrightarrow>
                        highlight_one categories sent
                        = spec_span (validate_category
                               (strip (f (llm_calls trace + i) (classify_prompt (changed ! i)) 5)))
                            sent)))"
proof -
  let ?cats = "cats_after f (llm_calls trace) changed Map.empty"
  have l: "classify_loop (answering f) changed (trace, Map.empty)
     = (trace @ map (\<lambda>sent. Generate_content (classify_prompt sent) 5) changed, Some ?cats)"
    by (rule classify_loop_answering)
  have "?cats (strip (changed ! i))
          = Some (validate_category
                    (strip (f (llm_calls trace + i) (classify_prompt (changed ! i)) 5)))
        \<and> (\<forall>sent. strip sent = strip (changed ! i) \<longrightarrow>
               highlight_one ?cats sent
               = spec_span (validate_category
                    (strip (f (llm_calls trace + i) (classify_prompt (changed ! i)) 5))) sent)"
    if i: "i < length changed"
      and last: "\<forall>j. i < j \<and> j < length changed \<longrightarrow> strip (changed ! j) \<noteq> strip (changed ! i)"
    for i
  proof -
    have c: "?cats (strip (changed ! i))
          = Some (validate_category
                    (strip (f (llm_calls trace + i) (classify_prompt (changed ! i)) 5)))"
      by (rule cats_after_last[OF i last])
    then show ?thesis
      using highlight_one_valid[OF validate_category_valid, of ?cats] by simp
  qed
  then show ?thesis unfolding l by simp
qed

theorem duplicate_changed_last_wins_witness:
  "fst (classify_loop (answering (\<lambda>n prompt m. if n = 1 then ''tone'' else ''grammar''))
          [''B.'', ''B.''] ([], Map.empty))
     = [Generate_content (classify_prompt ''B.'') 5, Generate_content (classify_prompt ''B.'') 5]
   \<and> highlight_one (the (snd (classify_loop
          (answering (\<lambda>n prompt m. if n = 1 then ''tone'' else ''grammar''))
          [''B.'', ''B.''] ([], Map.empty)))) ''B.''
     = spec_span ''tone'' ''B.''"
proof -
  let ?f = "\<lambda>(n::nat) (prompt::string) (m::nat). if n = 1 then ''tone'' else ''grammar''"
  obtain categories where
    s: "snd (classify_loop (answering ?f) [''B.'', ''B.''] ([], Map.empty)) = Some categories"
    and h: "\<forall>i<length [''B.'', ''B.''].
               (\<forall>j. i < j \<and> j < length [''B.'', ''B.''] \<longrightarrow>
                  strip ([''B.'', ''B.''] ! j) \<noteq> strip ([''B.'', ''B.''] ! i))
               \<longrightarrow> categories (strip ([''B.'', ''B.''] ! i))
                     = Some (validate_category
                               (strip (?f (llm_calls [] + i) (classify_prompt ([''B.'', ''B.''] ! i)) 5)))
                 \<and> (\<forall>sent. strip sent = strip ([''B.'', ''B.''] ! i) \<longrightarrow>
                        highlight_one categories sent
                        = spec_span (validate_category
                               (strip (?f (llm_calls [] + i) (classify_prompt ([''B.'', ''B.''] ! i)) 5)))
                            sent)"
    using duplicate_changed_last_wins[of ?f "[''B.'', ''B.'']" "[]"] by blast
  have v: "validate_category (strip ''tone'') = ''tone''" by code_simp
  have "highlight_one categories ''B.'' = spec_span ''tone'' ''B.''"
    using h[rule_format, of 1] v by (fastforce simp: llm_calls_def)
  moreover have "fst (classify_loop (answering ?f) [''B.'', ''B.''] ([], Map.empty))
     = [Generate_content (classify_prompt ''B.'') 5, Generate_content (classify_prompt ''B.'') 5]"
    using duplicate_changed_last_wins[of ?f "[''B.'', ''B.'']" "[]"] by simp
  ultimately show ?thesis unfolding s option.sel by blast
qed

end
